theory Spec2Isabelle
  imports Main "HOL-Library.Sublist"
begin

section \<open>JavaScript strings\<close>

text \<open>
  Strings are lists of code units; the model keeps the code units below 256, which is
  what \<^typ>\<open>char\<close> holds. Characters that cannot be written inside a string literal
  are given by their code.
\<close>

definition bslash :: char where
  \<open>bslash = CHR 0x5C\<close>

definition newline :: char where
  \<open>newline = CHR 0x0A\<close>

text \<open>\<^verbatim>\<open>String.prototype.indexOf\<close>: the first position at which the pattern starts.\<close>

fun String_indexOf :: "string \<Rightarrow> string \<Rightarrow> nat option" where
  "String_indexOf pat [] = (if pat = [] then Some 0 else None)"
| "String_indexOf pat (c # s) =
     (if prefix pat (c # s) then Some 0 else map_option Suc (String_indexOf pat s))"

definition String_includes :: "string \<Rightarrow> string \<Rightarrow> bool" where
  "String_includes s pat = (String_indexOf pat s \<noteq> None)"

definition String_endsWith :: "string \<Rightarrow> string \<Rightarrow> bool" where
  "String_endsWith s suf = suffix suf s"

text \<open>
  \<^verbatim>\<open>GetSubstitution\<close> of ECMAScript for a string pattern: there are no captures, so
  only \<^verbatim>\<open>$$\<close>, \<^verbatim>\<open>$&\<close>, \<^verbatim>\<open>$`\<close> and \<^verbatim>\<open>$'\<close> are expanded in the replacement text;
  every other \<^verbatim>\<open>$\<close> stays as it is.
\<close>

fun getSubstitution :: "string \<Rightarrow> string \<Rightarrow> string \<Rightarrow> string \<Rightarrow> string" where
  "getSubstitution matched preceding following (c # d # r) =
     (if c = CHR ''$'' \<and> d = CHR ''$'' then CHR ''$'' # getSubstitution matched preceding following r
      else if c = CHR ''$'' \<and> d = CHR ''&'' then matched @ getSubstitution matched preceding following r
      else if c = CHR ''$'' \<and> d = CHR 0x60 then preceding @ getSubstitution matched preceding following r
      else if c = CHR ''$'' \<and> d = CHR 0x27 then following @ getSubstitution matched preceding following r
      else c # getSubstitution matched preceding following (d # r))"
| "getSubstitution matched preceding following r = r"

text \<open>
  \<^verbatim>\<open>String.prototype.replace\<close> with a string pattern and a string replacement: only the
  first occurrence is replaced, and a string without the pattern is returned as it is.
\<close>

definition String_replace :: "string \<Rightarrow> string \<Rightarrow> string \<Rightarrow> string" where
  "String_replace s pat rep =
     (case String_indexOf pat s of
        None \<Rightarrow> s
      | Some i \<Rightarrow>
          take i s
          @ getSubstitution pat (take i s) (drop (i + length pat) s) rep
          @ drop (i + length pat) s)"

text \<open>\<^verbatim>\<open>String.prototype.split\<close> on a one-character separator.\<close>

fun String_split :: "char \<Rightarrow> string \<Rightarrow> string list" where
  "String_split sep [] = [[]]"
| "String_split sep (c # s) =
     (if c = sep then [] # String_split sep s
      else (case String_split sep s of
              [] \<Rightarrow> [[c]]
            | w # ws \<Rightarrow> (c # w) # ws))"

text \<open>\<^verbatim>\<open>Array.prototype.join\<close> on strings.\<close>

fun Array_join :: "string \<Rightarrow> string list \<Rightarrow> string" where
  "Array_join sep [] = []"
| "Array_join sep [x] = x"
| "Array_join sep (x # y # xs) = x @ sep @ Array_join sep (y # xs)"

text \<open>Truthiness of an optional string: \<^verbatim>\<open>undefined\<close> and the empty string are falsy.\<close>

fun truthy :: "string option \<Rightarrow> bool" where
  "truthy None = False"
| "truthy (Some s) = (s \<noteq> [])"

section \<open>Node's path module, POSIX flavour\<close>

text \<open>
  The plugin calls \<^verbatim>\<open>path.normalize\<close>, \<^verbatim>\<open>path.join\<close>, \<^verbatim>\<open>path.parse\<close>,
  \<^verbatim>\<open>path.dirname\<close> and \<^verbatim>\<open>path.relative\<close>. They are modelled for a POSIX host
  (\<^verbatim>\<open>path.sep === '/'\<close>), segment by segment; the working directory that
  \<^verbatim>\<open>path.relative\<close> resolves against is a parameter.
\<close>

fun normalizeString :: "bool \<Rightarrow> string list \<Rightarrow> string list \<Rightarrow> string list" where
  "normalizeString allowAboveRoot [] res = res"
| "normalizeString allowAboveRoot (seg # segs) res =
     (if seg = [] \<or> seg = ''.'' then normalizeString allowAboveRoot segs res
      else if seg = ''..'' then
        (if res \<noteq> [] \<and> last res \<noteq> ''..'' then normalizeString allowAboveRoot segs (butlast res)
         else if allowAboveRoot then normalizeString allowAboveRoot segs (res @ [''..''])
         else normalizeString allowAboveRoot segs res)
      else normalizeString allowAboveRoot segs (res @ [seg]))"

definition isAbsolute :: "string \<Rightarrow> bool" where
  "isAbsolute p = (case p of [] \<Rightarrow> False | c # _ \<Rightarrow> c = CHR ''/'')"

definition path_normalize :: "string \<Rightarrow> string" where
  "path_normalize p =
     (if p = [] then ''.''
      else
        (let trailingSeparator = (last p = CHR ''/'');
             r = Array_join ''/'' (normalizeString (\<not> isAbsolute p) (String_split CHR ''/'' p) [])
         in if r = [] then (if isAbsolute p then ''/'' else if trailingSeparator then ''./'' else ''.'')
            else (if isAbsolute p then ''/'' else []) @ r @ (if trailingSeparator then ''/'' else [])))"

definition path_join :: "string list \<Rightarrow> string" where
  "path_join args =
     (let joined = filter (\<lambda>a. a \<noteq> []) args
      in if joined = [] then ''.'' else path_normalize (Array_join ''/'' joined))"

definition path_dirname :: "string \<Rightarrow> string" where
  "path_dirname p =
     (if p = [] then ''.''
      else
        (let r = dropWhile (\<lambda>c. c \<noteq> CHR ''/'') (dropWhile (\<lambda>c. c = CHR ''/'') (rev (tl p)))
         in if r = [] then (if isAbsolute p then ''/'' else ''.'')
            else if isAbsolute p \<and> length r = 1 then ''//''
            else take (length r) p))"

record ParsedPath =
  dir :: string
  base :: string
  ext :: string
  name :: string

definition path_parse :: "string \<Rightarrow> ParsedPath" where
  "path_parse p =
     (let body = (if isAbsolute p then tl p else p);
          root = (if isAbsolute p then ''/'' else []);
          r = dropWhile (\<lambda>c. c = CHR ''/'') (rev body);
          b = rev (takeWhile (\<lambda>c. c \<noteq> CHR ''/'') r);
          rest = dropWhile (\<lambda>c. c \<noteq> CHR ''/'') r;
          d = (if rest = [] then root else root @ rev (tl rest));
          k = length (dropWhile (\<lambda>c. c \<noteq> CHR ''.'') (rev b))
      in if k \<le> 1 \<or> (b = ''..'' \<and> (rest \<noteq> [] \<or> \<not> isAbsolute p))
         then \<lparr>dir = d, base = b, ext = [], name = b\<rparr>
         else \<lparr>dir = d, base = b, ext = drop (k - 1) b, name = take (k - 1) b\<rparr>)"

definition path_resolve :: "string \<Rightarrow> string \<Rightarrow> string list" where
  "path_resolve cwd p =
     normalizeString False (String_split CHR ''/'' (if isAbsolute p then p else cwd @ ''/'' @ p)) []"

fun dropCommon :: "string list \<Rightarrow> string list \<Rightarrow> string list \<times> string list" where
  "dropCommon (x # xs) (y # ys) = (if x = y then dropCommon xs ys else (x # xs, y # ys))"
| "dropCommon xs ys = (xs, ys)"

definition path_relative :: "string \<Rightarrow> string \<Rightarrow> string \<Rightarrow> string" where
  "path_relative cwd from to =
     (if from = to then []
      else (case dropCommon (path_resolve cwd from) (path_resolve cwd to) of
              (fs, ts) \<Rightarrow> Array_join ''/'' (replicate (length fs) ''..'' @ ts)))"

section \<open>The plugin's data\<close>

datatype ScriptLoading = Blocking | Defer | Module

text \<open>
  A key that \<^verbatim>\<open>Object.assign\<close> looks at: not an own property of the object, an own
  property whose value is \<^verbatim>\<open>undefined\<close>, or an own property with a value.
\<close>

datatype 'a Property = Missing | Undefined | Given 'a

text \<open>
  The fields of \<^verbatim>\<open>HtmlFileConfiguration\<close> that the code reads. The variable mapping is
  the field \<^verbatim>\<open>define\<close> of the source.
\<close>

record HtmlFileConfiguration =
  filename :: string
  entryPoints :: "string list"
  title :: "string option"
  htmlTemplate :: "string option"
  defineVars :: "(string \<times> string) list option"
  scriptLoading :: "ScriptLoading option"
  findRelatedCssFiles :: "bool Property"
  findRelatedOutputFiles :: "bool Property"

text \<open>One entry of \<^verbatim>\<open>metafile.outputs\<close>, and the flattened object with its path.\<close>

record BuildOutput =
  entryPoint :: "string option"
  cssBundle :: "string option"

record OutputFile = BuildOutput +
  path :: string

type_synonym Outputs = "(string \<times> BuildOutput) list"

datatype error = Error string

definition defaultHtmlTemplate :: string where
  \<open>defaultHtmlTemplate =
     [newline] @ ''<!DOCTYPE html>'' @ [newline]
     @ ''<html>'' @ [newline]
     @ ''  <head>'' @ [newline]
     @ ''    <meta charset="utf-8" />'' @ [newline]
     @ ''  </head>'' @ [newline]
     @ ''  <body>'' @ [newline]
     @ ''  </body>'' @ [newline]
     @ ''</html>'' @ [newline]\<close>

section \<open>Path helpers of the plugin\<close>

definition posixJoin :: "string list \<Rightarrow> string" where
  "posixJoin paths = path_join paths"

definition joinWithPublicPath :: "string \<Rightarrow> string \<Rightarrow> string" where
  "joinWithPublicPath publicPath relPath =
     (let relPath' = path_normalize relPath;
          publicPath' = (if publicPath = [] then ''.'' else publicPath);
          slash = (if String_endsWith publicPath' ''/'' then [] else ''/'')
      in publicPath' @ slash @ relPath')"

section \<open>Rendering and injection\<close>

text \<open>
  The file system is a map from a path to what reading it gives (\<open>None\<close>: no such
  file); the template engine is a parameter.
\<close>

definition renderTemplate ::
  "(string \<Rightarrow> (error + string) option) \<Rightarrow> (string \<Rightarrow> (string \<times> string) list \<Rightarrow> error + string)
   \<Rightarrow> HtmlFileConfiguration \<Rightarrow> error + string" where
  "renderTemplate fs lodashTemplate cfg =
     (case (case htmlTemplate cfg of
              None \<Rightarrow> Inr []
            | Some h \<Rightarrow> (if h \<noteq> [] \<and> fs h \<noteq> None then the (fs h) else Inr h)) of
        Inl e \<Rightarrow> Inl e
      | Inr customHtmlTemplate \<Rightarrow>
          (let template = (if customHtmlTemplate = [] then defaultHtmlTemplate else customHtmlTemplate)
           in case defineVars cfg of
                None \<Rightarrow> Inr template
              | Some d \<Rightarrow> lodashTemplate template d))"

definition targetPath ::
  "string \<Rightarrow> string \<Rightarrow> string option \<Rightarrow> HtmlFileConfiguration \<Rightarrow> string \<Rightarrow> string" where
  "targetPath cwd outDir publicPath cfg filepath =
     (if truthy publicPath
      then joinWithPublicPath (the publicPath) (path_relative cwd outDir filepath)
      else path_relative cwd (path_dirname (posixJoin [outDir, filename cfg])) filepath)"

definition elements ::
  "string \<Rightarrow> string \<Rightarrow> string option \<Rightarrow> HtmlFileConfiguration \<Rightarrow> 'a OutputFile_scheme \<Rightarrow> string list" where
  \<open>elements cwd outDir publicPath cfg outputFile =
     (let filepath = path outputFile;
          tp = targetPath cwd outDir publicPath cfg filepath;
          e = ext (path_parse filepath);
          scriptElement =
            (if e = ''.js'' then
               (if scriptLoading cfg = Some Module
                then ''<script src="'' @ tp @ ''" type="module"></script>''
                else if scriptLoading cfg = None \<or> scriptLoading cfg = Some Defer
                then ''<script src="'' @ tp @ ''" defer></script>''
                else [])
             else []);
          linkCssElement =
            (if e = ''.js'' then []
             else if e = ''.css'' then ''<link rel="stylesheet" href="'' @ tp @ ''">''
             else [])
      in [scriptElement, linkCssElement])\<close>

definition elementsStringToInject ::
  "string \<Rightarrow> 'a OutputFile_scheme list \<Rightarrow> string \<Rightarrow> string option \<Rightarrow> HtmlFileConfiguration \<Rightarrow> string" where
  "elementsStringToInject cwd assets outDir publicPath cfg =
     Array_join [] (concat (map (elements cwd outDir publicPath cfg) assets))"

definition injectFilesToHtmlTemplate ::
  "string \<Rightarrow> string \<Rightarrow> 'a OutputFile_scheme list \<Rightarrow> string \<Rightarrow> string option \<Rightarrow> HtmlFileConfiguration \<Rightarrow> string" where
  "injectFilesToHtmlTemplate cwd htmlTemplateText assets outDir publicPath cfg =
     String_replace htmlTemplateText ''</title>''
       (''</title>'' @ elementsStringToInject cwd assets outDir publicPath cfg)"

section \<open>Regular expressions\<close>

text \<open>
  The plugin builds its patterns as strings and hands them to \<^verbatim>\<open>new RegExp\<close>. The
  fragment of the pattern language modelled here: literal characters, escaped
  punctuation, \<^verbatim>\<open>\s\<close> and \<^verbatim>\<open>\S\<close>, character classes with ranges and negation, the
  greedy quantifiers \<^verbatim>\<open>?\<close>, \<^verbatim>\<open>+\<close>, \<^verbatim>\<open>*\<close>, \<^verbatim>\<open>{n}\<close> on a one-character atom, and
  named groups. A pattern outside the fragment is refused like one that does not
  compile.
\<close>

definition isWhiteSpace :: "char \<Rightarrow> bool" where
  "isWhiteSpace c =
     (c = CHR 0x09 \<or> c = CHR 0x0A \<or> c = CHR 0x0B \<or> c = CHR 0x0C \<or> c = CHR 0x0D
      \<or> c = CHR 0x20 \<or> c = CHR 0xA0)"

definition inRange :: "char \<Rightarrow> char \<Rightarrow> char \<Rightarrow> bool" where
  "inRange lo hi c = ((of_char lo :: nat) \<le> of_char c \<and> (of_char c :: nat) \<le> of_char hi)"

definition isDigit :: "char \<Rightarrow> bool" where
  "isDigit c = inRange CHR ''0'' CHR ''9'' c"

definition isAlnum :: "char \<Rightarrow> bool" where
  "isAlnum c = (inRange CHR ''a'' CHR ''z'' c \<or> inRange CHR ''A'' CHR ''Z'' c \<or> isDigit c)"

datatype ClassItem = ClassChar char | ClassRange char char | ClassSpace

datatype Atom = AChar char | ASpace | ANonSpace | AClass bool "ClassItem list"

datatype Quantifier = QOne | QOpt | QPlus | QStar | QExact nat

datatype Item = Single Atom Quantifier | GroupOpen string | GroupClose

fun classItemMatches :: "char \<Rightarrow> ClassItem \<Rightarrow> bool" where
  "classItemMatches c (ClassChar d) = (c = d)"
| "classItemMatches c (ClassRange lo hi) = inRange lo hi c"
| "classItemMatches c ClassSpace = isWhiteSpace c"

fun atomMatches :: "Atom \<Rightarrow> char \<Rightarrow> bool" where
  "atomMatches (AChar d) c = (c = d)"
| "atomMatches ASpace c = isWhiteSpace c"
| "atomMatches ANonSpace c = (\<not> isWhiteSpace c)"
| "atomMatches (AClass negated items) c = (list_ex (classItemMatches c) items \<noteq> negated)"

subsection \<open>Reading a pattern\<close>

text \<open>The items of a class up to its closing bracket, and the characters read.\<close>

fun parseClass :: "string \<Rightarrow> (ClassItem list \<times> nat) option" where
  "parseClass [] = None"
| "parseClass (c # r) =
     (if c = CHR '']'' then Some ([], 1)
      else if c = bslash then
        (case r of
           [] \<Rightarrow> None
         | d # r' \<Rightarrow>
             (if d = CHR ''s''
              then map_option (\<lambda>(items, n). (ClassSpace # items, n + 2)) (parseClass r')
              else if \<not> isAlnum d
              then map_option (\<lambda>(items, n). (ClassChar d # items, n + 2)) (parseClass r')
              else None))
      else
        (case r of
           m # hi # r' \<Rightarrow>
             (if m = CHR ''-'' \<and> hi \<noteq> CHR '']''
              then (if hi = bslash \<or> (of_char hi :: nat) < of_char c then None
                    else map_option (\<lambda>(items, n). (ClassRange c hi # items, n + 3)) (parseClass r'))
              else map_option (\<lambda>(items, n). (ClassChar c # items, n + 1)) (parseClass r))
         | _ \<Rightarrow> map_option (\<lambda>(items, n). (ClassChar c # items, n + 1)) (parseClass r)))"

text \<open>
  An atom that starts with the character \<open>c\<close>, and how many characters of the rest it
  takes. The syntax characters that are left unescaped are not atoms.
\<close>

definition parseAtom :: "char \<Rightarrow> string \<Rightarrow> (Atom \<times> nat) option" where
  "parseAtom c r =
     (if c = bslash then
        (case r of
           [] \<Rightarrow> None
         | d # _ \<Rightarrow>
             (if d = CHR ''s'' then Some (ASpace, 1)
              else if d = CHR ''S'' then Some (ANonSpace, 1)
              else if \<not> isAlnum d then Some (AChar d, 1)
              else None))
      else if c = CHR ''['' then
        (case r of
           [] \<Rightarrow> None
         | d # r' \<Rightarrow>
             (if d = CHR ''^''
              then map_option (\<lambda>(items, n). (AClass True items, n + 1)) (parseClass r')
              else map_option (\<lambda>(items, n). (AClass False items, n)) (parseClass r)))
      else if c \<in> set ''^$.*+?()]{}|'' then None
      else Some (AChar c, 0))"

fun digitsValue :: "nat \<Rightarrow> string \<Rightarrow> nat" where
  "digitsValue acc [] = acc"
| "digitsValue acc (c # r) = digitsValue (10 * acc + (of_char c - of_char CHR ''0'')) r"

text \<open>The quantifier at the head of a string (none is \<open>QOne\<close>), and its length.\<close>

definition parseQuantifier :: "string \<Rightarrow> (Quantifier \<times> nat) option" where
  "parseQuantifier s =
     (case s of
        [] \<Rightarrow> Some (QOne, 0)
      | c # r \<Rightarrow>
          (case (if c = CHR ''?'' then Some (QOpt, 1)
                 else if c = CHR ''+'' then Some (QPlus, 1)
                 else if c = CHR ''*'' then Some (QStar, 1)
                 else if c = CHR ''{'' then
                   (let ds = takeWhile isDigit r
                    in if ds \<noteq> [] \<and> take 1 (drop (length ds) r) = ''}''
                       then Some (QExact (digitsValue 0 ds), length ds + 2) else None)
                 else Some (QOne, 0)) of
             None \<Rightarrow> None
           | Some (q, n) \<Rightarrow>
               (if 0 < n \<and> take 1 (drop n s) = ''?'' then None else Some (q, n))))"

text \<open>The name of a group after its opening parenthesis, and the characters read.\<close>

definition parseGroupName :: "string \<Rightarrow> (string \<times> nat) option" where
  "parseGroupName r =
     (case r of
        q # l # r' \<Rightarrow>
          (let nm = takeWhile (\<lambda>c. c \<noteq> CHR ''>'') r'
           in if q = CHR ''?'' \<and> l = CHR ''<'' \<and> nm \<noteq> [] \<and> length nm < length r'
                 \<and> list_all isAlnum nm \<and> \<not> isDigit (hd nm)
              then Some (nm, length nm + 3) else None)
      | _ \<Rightarrow> None)"

fun parseItems :: "nat \<Rightarrow> string \<Rightarrow> Item list option" where
  "parseItems depth [] = (if depth = 0 then Some [] else None)"
| "parseItems depth (c # r) =
     (if c = CHR ''('' then
        (case parseGroupName r of
           None \<Rightarrow> None
         | Some (nm, k) \<Rightarrow> map_option ((#) (GroupOpen nm)) (parseItems (Suc depth) (drop k r)))
      else if c = CHR '')'' then
        (if depth = 0 then None
         else map_option ((#) GroupClose) (parseItems (depth - 1) r))
      else
        (case parseAtom c r of
           None \<Rightarrow> None
         | Some (a, k) \<Rightarrow>
             (case parseQuantifier (drop k r) of
                None \<Rightarrow> None
              | Some (q, m) \<Rightarrow>
                  map_option ((#) (Single a q)) (parseItems depth (drop m (drop k r))))))"

fun groupNames :: "Item list \<Rightarrow> string list" where
  "groupNames [] = []"
| "groupNames (GroupOpen nm # items) = nm # groupNames items"
| "groupNames (_ # items) = groupNames items"

text \<open>\<^verbatim>\<open>new RegExp(source)\<close>: a compiled pattern, or the error it throws.\<close>

definition RegExp_new :: "string \<Rightarrow> error + Item list" where
  "RegExp_new source =
     (case parseItems 0 source of
        None \<Rightarrow> Inl (Error (''Invalid regular expression: '' @ source))
      | Some items \<Rightarrow>
          (if distinct (groupNames items) then Inr items
           else Inl (Error (''Invalid regular expression: '' @ source))))"

subsection \<open>Matching\<close>

fun quantMin :: "Quantifier \<Rightarrow> nat" where
  "quantMin QOne = 1"
| "quantMin QOpt = 0"
| "quantMin QPlus = 1"
| "quantMin QStar = 0"
| "quantMin (QExact n) = n"

fun quantMax :: "Quantifier \<Rightarrow> nat \<Rightarrow> nat" where
  "quantMax QOne avail = min 1 avail"
| "quantMax QOpt avail = min 1 avail"
| "quantMax QPlus avail = avail"
| "quantMax QStar avail = avail"
| "quantMax (QExact n) avail = min n avail"

fun firstSome :: "'a option list \<Rightarrow> 'a option" where
  "firstSome [] = None"
| "firstSome (Some x # _) = Some x"
| "firstSome (None # xs) = firstSome xs"

text \<open>
  Backtracking match of the items at position \<open>pos\<close> of \<open>inp\<close>: a greedy quantifier is
  tried with the longest run first. The result is the end position and the groups.
\<close>

fun matchItems ::
  "Item list \<Rightarrow> string \<Rightarrow> nat \<Rightarrow> (string \<times> nat) list \<Rightarrow> (string \<times> string) list
   \<Rightarrow> (nat \<times> (string \<times> string) list) option" where
  "matchItems [] inp pos opens groups = Some (pos, groups)"
| "matchItems (GroupOpen nm # items) inp pos opens groups =
     matchItems items inp pos ((nm, pos) # opens) groups"
| "matchItems (GroupClose # items) inp pos opens groups =
     (case opens of
        [] \<Rightarrow> None
      | (nm, start) # opens' \<Rightarrow>
          matchItems items inp pos opens' ((nm, take (pos - start) (drop start inp)) # groups))"
| "matchItems (Single a q # items) inp pos opens groups =
     (let avail = length (takeWhile (atomMatches a) (drop pos inp));
          lo = quantMin q;
          hi = quantMax q avail
      in if hi < lo then None
         else firstSome (map (\<lambda>n. matchItems items inp (pos + n) opens groups) (rev [lo ..< Suc hi])))"

text \<open>\<^verbatim>\<open>RegExp.prototype.exec\<close> without flags: the leftmost match, as its named groups.\<close>

fun RegExp_exec :: "Item list \<Rightarrow> string \<Rightarrow> (string \<times> string) list option" where
  "RegExp_exec items [] = map_option snd (matchItems items [] 0 [] [])"
| "RegExp_exec items (c # s) =
     (case matchItems items (c # s) 0 [] [] of
        Some m \<Rightarrow> Some (snd m)
      | None \<Rightarrow> RegExp_exec items s)"

definition RegExp_test :: "Item list \<Rightarrow> string \<Rightarrow> bool" where
  "RegExp_test items s = (RegExp_exec items s \<noteq> None)"

section \<open>Finding the outputs of a target\<close>

definition DIR_REGEX :: string where
  \<open>DIR_REGEX = ''(?<dir>'' @ [bslash] @ ''S+'' @ [bslash] @ ''/?)''\<close>

definition HASH_REGEX :: string where
  \<open>HASH_REGEX = ''(?<hash>[A-Z2-7]{8})''\<close>

definition NAME_REGEX :: string where
  \<open>NAME_REGEX = ''(?<name>[^'' @ [bslash] @ ''s'' @ [bslash] @ ''/]+)''\<close>

text \<open>The characters of the class in \<^verbatim>\<open>escapeRegExp\<close>; each gets a backslash in front.\<close>

definition isSpecial :: "char \<Rightarrow> bool" where
  \<open>isSpecial c = (c \<in> set ''-[]{}()*+?.,^$|#'' \<or> c = bslash \<or> isWhiteSpace c)\<close>

definition escapeRegExp :: "string \<Rightarrow> string" where
  "escapeRegExp text = concat (map (\<lambda>c. if isSpecial c then [bslash, c] else [c]) text)"

text \<open>The escaped placeholder \<^verbatim>\<open>\[p\]\<close> that the code searches for.\<close>

definition escapedPlaceholder :: "string \<Rightarrow> string" where
  "escapedPlaceholder p = [bslash] @ ''['' @ p @ [bslash] @ '']''"

definition findVariablesRegexString :: "string \<Rightarrow> string" where
  "findVariablesRegexString entryNames =
     String_replace
       (String_replace
          (String_replace (escapeRegExp entryNames) (escapedPlaceholder ''hash'') HASH_REGEX)
          (escapedPlaceholder ''name'') NAME_REGEX)
       (escapedPlaceholder ''dir'') DIR_REGEX"

definition findFilesWithSameVariablesRegexString :: "string \<Rightarrow> string option \<Rightarrow> string option \<Rightarrow> string" where
  "findFilesWithSameVariablesRegexString entryNames nm d =
     String_replace
       (escapeRegExp
          (String_replace
             (String_replace entryNames ''[name]'' (case nm of None \<Rightarrow> [] | Some n \<Rightarrow> n))
             ''[dir]'' (case d of None \<Rightarrow> [] | Some x \<Rightarrow> x)))
       (escapedPlaceholder ''hash'') HASH_REGEX"

definition flatten :: "string \<times> BuildOutput \<Rightarrow> OutputFile" where
  "flatten outputData =
     \<lparr>entryPoint = entryPoint (snd outputData), cssBundle = cssBundle (snd outputData),
      path = fst outputData\<rparr>"

text \<open>The entries of \<^verbatim>\<open>metafile?.outputs || {}\<close>, in the order of \<^verbatim>\<open>Object.entries\<close>.\<close>

definition outputsOf :: "Outputs option \<Rightarrow> Outputs" where
  "outputsOf metafile = (case metafile of None \<Rightarrow> [] | Some outputs \<Rightarrow> outputs)"

definition collectEntrypoints :: "HtmlFileConfiguration \<Rightarrow> Outputs option \<Rightarrow> OutputFile list" where
  "collectEntrypoints cfg metafile =
     map flatten
       (filter (\<lambda>(key, v). if \<not> truthy (entryPoint v) then False
                            else the (entryPoint v) \<in> set (entryPoints cfg))
          (outputsOf metafile))"

text \<open>A filter whose test may throw: the first error ends it.\<close>

fun filterE :: "('a \<Rightarrow> error + bool) \<Rightarrow> 'a list \<Rightarrow> error + 'a list" where
  "filterE f [] = Inr []"
| "filterE f (x # xs) =
     (case f x of
        Inl e \<Rightarrow> Inl e
      | Inr b \<Rightarrow>
          (case filterE f xs of
             Inl e \<Rightarrow> Inl e
           | Inr ys \<Rightarrow> Inr (if b then x # ys else ys)))"

definition findNameRelatedOutputFiles ::
  "OutputFile \<Rightarrow> Outputs option \<Rightarrow> string option \<Rightarrow> error + OutputFile list" where
  "findNameRelatedOutputFiles entrypoint metafile entryNames =
     (let pathOfMatchedOutput = path_parse (path entrypoint)
      in if truthy entryNames then
           (let joinedPathOfMatch = posixJoin [dir pathOfMatchedOutput, name pathOfMatchedOutput]
            in case RegExp_new (findVariablesRegexString (the entryNames)) of
                 Inl e \<Rightarrow> Inl e
               | Inr findVariablesRegex \<Rightarrow>
                   (let match = RegExp_exec findVariablesRegex joinedPathOfMatch;
                        nm = (case match of None \<Rightarrow> None | Some groups \<Rightarrow> map_of groups ''name'');
                        d = (case match of None \<Rightarrow> None | Some groups \<Rightarrow> map_of groups ''dir'')
                    in map_sum id (map flatten)
                         (filterE
                            (\<lambda>(pathOfCurrentOutput, v).
                               case RegExp_new
                                      (findFilesWithSameVariablesRegexString (the entryNames) nm d) of
                                 Inl e \<Rightarrow> Inl e
                               | Inr findFilesWithSameVariablesRegex \<Rightarrow>
                                   Inr (RegExp_test findFilesWithSameVariablesRegex pathOfCurrentOutput))
                            (outputsOf metafile))))
         else
           Inr (map flatten
                  (filter (\<lambda>(key, v). name (path_parse key) = name pathOfMatchedOutput
                                       \<and> dir (path_parse key) = dir pathOfMatchedOutput)
                     (outputsOf metafile))))"

text \<open>
  A JavaScript \<^verbatim>\<open>Map\<close> keyed by path, in insertion order: setting a key that is there
  keeps its place and replaces its value.
\<close>

fun Map_set :: "(string \<times> 'v) list \<Rightarrow> string \<Rightarrow> 'v \<Rightarrow> (string \<times> 'v) list" where
  "Map_set [] k v = [(k, v)]"
| "Map_set ((k', v') # m) k v = (if k' = k then (k, v) # m else (k', v') # Map_set m k v)"

definition Map_values :: "(string \<times> 'v) list \<Rightarrow> 'v list" where
  "Map_values m = map snd m"

text \<open>
  The defaults that \<^verbatim>\<open>htmlPlugin\<close> gives every configuration with \<^verbatim>\<open>Object.assign\<close>:
  a key that the configuration does not have takes the default, a key that it has
  keeps its value, also when that value is \<^verbatim>\<open>undefined\<close>.
\<close>

definition setDefaults :: "HtmlFileConfiguration \<Rightarrow> HtmlFileConfiguration" where
  "setDefaults cfg =
     cfg\<lparr>findRelatedOutputFiles :=
            (case findRelatedOutputFiles cfg of Missing \<Rightarrow> Given False | p \<Rightarrow> p),
         findRelatedCssFiles :=
            (case findRelatedCssFiles cfg of Missing \<Rightarrow> Given True | p \<Rightarrow> p)\<rparr>"

text \<open>The map \<^verbatim>\<open>relatedOutputFiles\<close> that the loop of \<^verbatim>\<open>onEnd\<close> fills for one entry point.\<close>

definition relatedOutputFiles ::
  "HtmlFileConfiguration \<Rightarrow> Outputs option \<Rightarrow> string option \<Rightarrow> OutputFile
   \<Rightarrow> error + (string \<times> OutputFile) list" where
  "relatedOutputFiles cfg metafile entryNames entrypoint =
     (let m0 = Map_set [] (path entrypoint) entrypoint;
          m1 = (if findRelatedCssFiles cfg = Given True \<and> truthy (cssBundle entrypoint)
                then Map_set m0 (the (cssBundle entrypoint))
                       \<lparr>entryPoint = None, cssBundle = None, path = the (cssBundle entrypoint)\<rparr>
                else m0)
      in if findRelatedOutputFiles cfg = Given True then
           (case findNameRelatedOutputFiles entrypoint metafile entryNames of
              Inl e \<Rightarrow> Inl e
            | Inr found \<Rightarrow> Inr (foldl (\<lambda>m item. Map_set m (path item) item) m1 found))
         else Inr m1)"

text \<open>An object is never falsy, so the test \<^verbatim>\<open>!entrypoint\<close> of the loop is never true.\<close>

definition isFalsyObject :: "OutputFile \<Rightarrow> bool" where
  "isFalsyObject entrypoint = False"

fun collectOutputFiles ::
  "HtmlFileConfiguration \<Rightarrow> Outputs option \<Rightarrow> string option \<Rightarrow> OutputFile list
   \<Rightarrow> OutputFile list \<Rightarrow> error + OutputFile list" where
  "collectOutputFiles cfg metafile entryNames collectedOutputFiles [] = Inr collectedOutputFiles"
| "collectOutputFiles cfg metafile entryNames collectedOutputFiles (entrypoint # rest) =
     (if isFalsyObject entrypoint
      then Inl (Error (''Found no match for '' @ Array_join '','' (entryPoints cfg)))
      else (case relatedOutputFiles cfg metafile entryNames entrypoint of
              Inl e \<Rightarrow> Inl e
            | Inr m \<Rightarrow>
                collectOutputFiles cfg metafile entryNames
                  (collectedOutputFiles @ Map_values m) rest))"

section \<open>The end of a build\<close>

record Build =
  cwd :: string
  outdir :: string
  publicPath :: "string option"
  entryNames :: "string option"
  metafile :: "Outputs option"

text \<open>
  One round of the loop of \<^verbatim>\<open>onEnd\<close>: the file to write and its text, or the error
  thrown.
\<close>

definition processHtmlFile ::
  "(string \<Rightarrow> (error + string) option) \<Rightarrow> (string \<Rightarrow> (string \<times> string) list \<Rightarrow> error + string)
   \<Rightarrow> Build \<Rightarrow> HtmlFileConfiguration \<Rightarrow> error + string \<times> string" where
  "processHtmlFile fs lodashTemplate build cfg =
     (let collectedEntrypoints = collectEntrypoints cfg (metafile build)
      in case collectOutputFiles cfg (metafile build) (entryNames build) [] collectedEntrypoints of
           Inl e \<Rightarrow> Inl e
         | Inr collectedOutputFiles \<Rightarrow>
             (case renderTemplate fs lodashTemplate cfg of
                Inl e \<Rightarrow> Inl e
              | Inr htmlTemplateText \<Rightarrow>
                  Inr (posixJoin [outdir build, filename cfg],
                       injectFilesToHtmlTemplate (cwd build) htmlTemplateText collectedOutputFiles
                         (outdir build) (publicPath build) cfg)))"

text \<open>The files written, in order, and the error that stopped the loop, if any.\<close>

fun onEnd ::
  "(string \<Rightarrow> (error + string) option) \<Rightarrow> (string \<Rightarrow> (string \<times> string) list \<Rightarrow> error + string)
   \<Rightarrow> Build \<Rightarrow> HtmlFileConfiguration list \<Rightarrow> (string \<times> string) list \<times> error option" where
  "onEnd fs lodashTemplate build [] = ([], None)"
| "onEnd fs lodashTemplate build (cfg # files) =
     (case processHtmlFile fs lodashTemplate build cfg of
        Inl e \<Rightarrow> ([], Some e)
      | Inr written \<Rightarrow>
          (case onEnd fs lodashTemplate build files of
             (others, err) \<Rightarrow> (written # others, err)))"

text \<open>
  The plugin as a whole: \<^verbatim>\<open>htmlPlugin\<close> gives every configuration its defaults, and the
  \<^verbatim>\<open>onEnd\<close> callback runs over the configurations so completed.
\<close>

definition htmlPlugin_onEnd ::
  "(string \<Rightarrow> (error + string) option) \<Rightarrow> (string \<Rightarrow> (string \<times> string) list \<Rightarrow> error + string)
   \<Rightarrow> Build \<Rightarrow> HtmlFileConfiguration list \<Rightarrow> (string \<times> string) list \<times> error option" where
  "htmlPlugin_onEnd fs lodashTemplate build files =
     onEnd fs lodashTemplate build (map setDefaults files)"

section \<open>Occurrences of a pattern\<close>

text \<open>
  Two patterns do not overlap when no occurrence of the second can start inside an
  occurrence of the first; a string holds a pattern twice when two occurrences follow
  one another.
\<close>

definition noOverlap :: "string \<Rightarrow> string \<Rightarrow> bool" where
  "noOverlap P Q =
     list_all (\<lambda>d. list_ex (\<lambda>i. P ! (d + i) \<noteq> Q ! i) [0 ..< min (length P - d) (length Q)])
       [0 ..< length P]"

definition twice :: "string \<Rightarrow> string \<Rightarrow> bool" where
  "twice Q w = (\<exists>x y z. w = x @ Q @ y @ Q @ z)"

section \<open>The pattern strings as token lists\<close>

text \<open>
  The strings that become patterns are read as tokens: a character of the naming
  template, which \<^verbatim>\<open>escapeRegExp\<close> may have escaped, or a capture pattern that took
  the place of a placeholder.
\<close>

datatype Token = Lit char | Grp string

fun tokenText :: "Token \<Rightarrow> string" where
  "tokenText (Lit c) = (if isSpecial c then [bslash, c] else [c])"
| "tokenText (Grp g) = g"

definition tokensText :: "Token list \<Rightarrow> string" where
  "tokensText ts = concat (map tokenText ts)"

text \<open>First occurrence and replacement on token lists, as on strings.\<close>

fun tokenIndexOf :: "Token list \<Rightarrow> Token list \<Rightarrow> nat option" where
  "tokenIndexOf pat [] = (if pat = [] then Some 0 else None)"
| "tokenIndexOf pat (t # ts) =
     (if prefix pat (t # ts) then Some 0 else map_option Suc (tokenIndexOf pat ts))"

definition tokenReplace :: "Token list \<Rightarrow> Token list \<Rightarrow> Token \<Rightarrow> Token list" where
  "tokenReplace ts pat t =
     (case tokenIndexOf pat ts of
        None \<Rightarrow> ts
      | Some i \<Rightarrow> take i ts @ t # drop (i + length pat) ts)"

text \<open>The three capture patterns, and the ones that occur in a token list.\<close>

definition isCapture :: "string \<Rightarrow> bool" where
  "isCapture g = (g = DIR_REGEX \<or> g = HASH_REGEX \<or> g = NAME_REGEX)"

fun captures :: "Token list \<Rightarrow> string list" where
  "captures [] = []"
| "captures (Lit c # ts) = captures ts"
| "captures (Grp g # ts) = g # captures ts"

text \<open>The first character of a string of tokens: never a quantifier or a bracket.\<close>

definition headOK :: "string \<Rightarrow> bool" where
  "headOK r = (case r of [] \<Rightarrow> True | c # _ \<Rightarrow> c = bslash \<or> c = CHR ''('' \<or> \<not> isSpecial c)"

text \<open>The items that a token compiles to.\<close>

fun tokenItems :: "Token \<Rightarrow> Item list" where
  "tokenItems (Lit c) = [Single (AChar c) QOne]"
| "tokenItems (Grp g) = (case parseItems 0 g of None \<Rightarrow> [] | Some items \<Rightarrow> items)"

text \<open>The group name of a capture pattern.\<close>

definition captureName :: "string \<Rightarrow> string" where
  "captureName g = (if g = DIR_REGEX then ''dir'' else if g = HASH_REGEX then ''hash'' else ''name'')"

text \<open>The items of a text that is matched literally.\<close>

definition literalItems :: "string \<Rightarrow> Item list" where
  "literalItems s = map (\<lambda>c. Single (AChar c) QOne) s"

section \<open>Paths with a hash, as the spec words them\<close>

text \<open>
  Following the spec: the hash is exactly eight characters of the alphabet
  \<^verbatim>\<open>A-Z\<close> and \<^verbatim>\<open>2-7\<close>, and a path is related when the literal directory and name
  followed by such a hash occur somewhere in it.
\<close>

definition isHashChar :: "char \<Rightarrow> bool" where
  "isHashChar c = (inRange CHR ''A'' CHR ''Z'' c \<or> inRange CHR ''2'' CHR ''7'' c)"

definition Spec_hashedAt :: "string \<Rightarrow> string \<Rightarrow> bool" where
  "Spec_hashedAt lit s =
     (prefix lit s \<and> length (take 8 (drop (length lit) s)) = 8
      \<and> list_all isHashChar (take 8 (drop (length lit) s)))"

fun Spec_hashedSomewhere :: "string \<Rightarrow> string \<Rightarrow> bool" where
  "Spec_hashedSomewhere lit [] = Spec_hashedAt lit []"
| "Spec_hashedSomewhere lit (c # s) = (Spec_hashedAt lit (c # s) \<or> Spec_hashedSomewhere lit s)"

text \<open>The items that \<^verbatim>\<open>HASH_REGEX\<close> and the first pattern of the scenario compile to.\<close>

definition hashGroup :: "Item list" where
  "hashGroup =
     [GroupOpen ''hash'',
      Single (AClass False [ClassRange CHR ''A'' CHR ''Z'', ClassRange CHR ''2'' CHR ''7'']) (QExact 8),
      GroupClose]"

definition firstPatternItems :: "Item list" where
  "firstPatternItems =
     [GroupOpen ''dir'', Single ANonSpace QPlus, Single (AChar CHR ''/'') QOpt, GroupClose,
      Single (AChar CHR ''/'') QOne,
      GroupOpen ''name'', Single (AClass True [ClassSpace, ClassChar CHR ''/'']) QPlus, GroupClose,
      Single (AChar CHR ''-'') QOne] @ hashGroup"

section \<open>The pattern strings, as the spec words them\<close>

text \<open>
  Following the spec: the pattern string is the naming template read once from left to
  right. A placeholder that is still pending is replaced by its capture pattern where it
  is first met and is no longer pending after that; every other character is copied,
  with a backslash in front of it when it is special. The three flags say which of
  \<^verbatim>\<open>[hash]\<close>, \<^verbatim>\<open>[name]\<close> and \<^verbatim>\<open>[dir]\<close> are still pending.
\<close>

fun Spec_pattern :: "bool \<Rightarrow> bool \<Rightarrow> bool \<Rightarrow> string \<Rightarrow> string" where
  "Spec_pattern h n d [] = []"
| "Spec_pattern h n d (c # s) =
     (if h \<and> prefix ''[hash]'' (c # s) then HASH_REGEX @ Spec_pattern False n d (drop 5 s)
      else if n \<and> prefix ''[name]'' (c # s) then NAME_REGEX @ Spec_pattern h False d (drop 5 s)
      else if d \<and> prefix ''[dir]'' (c # s) then DIR_REGEX @ Spec_pattern h n False (drop 4 s)
      else (if isSpecial c then [bslash, c] else [c]) @ Spec_pattern h n d s)"

text \<open>
  The three replacements of the code, one after the other, on a list of tokens; a flag
  switches the replacement of its placeholder on.
\<close>

definition passTokens :: "bool \<Rightarrow> bool \<Rightarrow> bool \<Rightarrow> Token list \<Rightarrow> Token list" where
  "passTokens h n d ts =
     (let a = (if h then tokenReplace ts (map Lit ''[hash]'') (Grp HASH_REGEX) else ts);
          b = (if n then tokenReplace a (map Lit ''[name]'') (Grp NAME_REGEX) else a)
      in if d then tokenReplace b (map Lit ''[dir]'') (Grp DIR_REGEX) else b)"

section \<open>Sample inputs\<close>

text \<open>A configuration as a user writes it, and as the plugin holds it.\<close>

definition userConfig :: HtmlFileConfiguration where
  "userConfig =
     \<lparr>filename = ''index.html'', entryPoints = [''src/index.ts''], title = None,
      htmlTemplate = Some ''<title>x</title><body>'', defineVars = None, scriptLoading = None,
      findRelatedCssFiles = Missing, findRelatedOutputFiles = Missing\<rparr>"

definition sampleConfig :: HtmlFileConfiguration where
  "sampleConfig = setDefaults userConfig"

definition plainFile :: "string \<Rightarrow> OutputFile" where
  "plainFile p = \<lparr>entryPoint = None, cssBundle = None, path = p\<rparr>"

definition sampleBuild :: "Outputs \<Rightarrow> Build" where
  "sampleBuild outputs =
     \<lparr>cwd = ''/work'', outdir = ''out'', publicPath = None, entryNames = None,
      metafile = Some outputs\<rparr>"

definition entryOutput :: "string \<Rightarrow> string option \<Rightarrow> BuildOutput" where
  "entryOutput e css = \<lparr>entryPoint = Some e, cssBundle = css\<rparr>"

definition otherOutput :: BuildOutput where
  "otherOutput = \<lparr>entryPoint = None, cssBundle = None\<rparr>"



definition hashedSiblings :: Outputs where
  "hashedSiblings =
     [(''assets/app-AB2C3D4E.js'', entryOutput ''src/app.ts'' None),
      (''assets/app-AB2C3D4E.css'', otherOutput),
      (''assets/other-ZZ222222.js'', otherOutput),
      (''assets/app-ZZ234567.css'', otherOutput),
      (''assets/app-ab2c3d4e.css'', otherOutput),
      (''assets/app-AB2C3D4.js'', otherOutput),
      (''assets/app.css'', otherOutput)]"

section \<open>Invariant of the map of related files\<close>


section \<open>The defaults of a configuration\<close>

lemma setDefaults_fields:
  "findRelatedCssFiles cfg = Missing \<Longrightarrow> findRelatedCssFiles (setDefaults cfg) = Given True"
  "findRelatedOutputFiles cfg = Missing \<Longrightarrow> findRelatedOutputFiles (setDefaults cfg) = Given False"
  "findRelatedCssFiles cfg = Undefined \<Longrightarrow> findRelatedCssFiles (setDefaults cfg) = Undefined"
  "findRelatedOutputFiles cfg = Undefined \<Longrightarrow> findRelatedOutputFiles (setDefaults cfg) = Undefined"
  "findRelatedCssFiles cfg = Given b \<Longrightarrow> findRelatedCssFiles (setDefaults cfg) = Given b"
  "findRelatedOutputFiles cfg = Given b \<Longrightarrow> findRelatedOutputFiles (setDefaults cfg) = Given b"
  by (simp_all add: setDefaults_def)

section \<open>Facts about the string primitives\<close>

lemma getSubstitution_no_dollar:
  "CHR ''$'' \<notin> set r \<Longrightarrow> getSubstitution m p f r = r"
  by (induction m p f r rule: getSubstitution.induct) auto

lemma String_indexOf_None_iff: "String_indexOf pat s = None \<longleftrightarrow> \<not> sublist pat s"
  by (induction s) (auto simp: sublist_Cons_right)

lemma prefix_of_longer:
  assumes "prefix pat (pre @ pat @ post)" "pre \<noteq> []" "pat \<noteq> []"
  shows "sublist pat (pre @ butlast pat)"
proof -
  have eq: "pre @ pat @ post = (pre @ butlast pat) @ (last pat # post)"
    using assms(3) by simp
  have len: "length pat \<le> length (pre @ butlast pat)"
    using assms(2,3) by (cases pre) auto
  from assms(1) have "prefix pat ((pre @ butlast pat) @ (last pat # post))"
    by (simp only: eq)
  with len have "prefix pat (pre @ butlast pat)"
    by (metis prefix_length_prefix prefixI)
  then show ?thesis by (rule prefix_imp_sublist)
qed

lemma String_indexOf_first:
  "pat \<noteq> [] \<Longrightarrow> \<not> sublist pat (pre @ butlast pat) \<Longrightarrow>
   String_indexOf pat (pre @ pat @ post) = Some (length pre)"
proof (induction pre)
  case Nil
  then show ?case by (cases pat) auto
next
  case (Cons c pre)
  have np: "\<not> prefix pat ((c # pre) @ pat @ post)"
    using prefix_of_longer[of pat "c # pre" post] Cons.prems by blast
  have "\<not> sublist pat (pre @ butlast pat)"
    using Cons.prems(2) by (auto simp: sublist_Cons_right)
  with Cons.IH Cons.prems(1) have "String_indexOf pat (pre @ pat @ post) = Some (length pre)"
    by blast
  with np show ?case by simp
qed

lemma String_replace_first:
  assumes "pat \<noteq> []" "\<not> sublist pat (pre @ butlast pat)" "CHR ''$'' \<notin> set rep"
  shows "String_replace (pre @ pat @ post) pat rep = pre @ rep @ post"
  using String_indexOf_first[OF assms(1,2), of post] assms(3)
  by (simp add: String_replace_def getSubstitution_no_dollar)

lemma String_replace_absent:
  "\<not> sublist pat s \<Longrightarrow> String_replace s pat rep = s"
  by (simp add: String_replace_def String_indexOf_None_iff[symmetric])

lemma String_indexOf_Some:
  "String_indexOf P w = Some j \<Longrightarrow> prefix P (drop j w) \<and> j \<le> length w"
proof (induction w arbitrary: j)
  case Nil
  then show ?case by (auto split: if_splits)
next
  case (Cons c w)
  show ?case
  proof (cases "prefix P (c # w)")
    case True
    with Cons.prems show ?thesis by simp
  next
    case False
    with Cons.prems obtain j' where "String_indexOf P w = Some j'" "j = Suc j'" by auto
    with Cons.IH show ?thesis by auto
  qed
qed

lemma Array_join_Nil: "Array_join [] xs = concat xs"
  by (induction "[]::string" xs rule: Array_join.induct) auto

lemma concat_concat_map: "concat (concat (map f xs)) = concat (map (\<lambda>a. concat (f a)) xs)"
  by (induction xs) auto

section \<open>Injection into the template\<close>

text \<open>
  Claim C1, as the code has it. The claim puts the tags before the first \<^verbatim>\<open></title>\<close>;
  the code replaces the first \<^verbatim>\<open></title>\<close> by itself followed by the tags. When
  \<open>pre\<close> is the text in front of the first \<^verbatim>\<open></title>\<close> of the template and the
  tags hold no \<^verbatim>\<open>$\<close> (which \<^verbatim>\<open>replace\<close> would expand), the result is \<open>pre\<close>, the
  closing title tag, the tags of the assets in asset order, and the rest unchanged.
\<close>

theorem inject_after_first_title:
  assumes "t = pre @ ''</title>'' @ post"
    and "\<not> sublist ''</title>'' (pre @ ''</title'')"
    and "CHR ''$'' \<notin> set (elementsStringToInject wd assets od pp cfg)"
  shows "injectFilesToHtmlTemplate wd t assets od pp cfg
         = pre @ ''</title>'' @ elementsStringToInject wd assets od pp cfg @ post
       \<and> elementsStringToInject wd assets od pp cfg
         = concat (map (\<lambda>a. concat (elements wd od pp cfg a)) assets)"
proof -
  let ?tags = "elementsStringToInject wd assets od pp cfg"
  have "String_replace (pre @ ''</title>'' @ post) ''</title>'' (''</title>'' @ ?tags)
     = pre @ (''</title>'' @ ?tags) @ post"
    using assms(2,3) by (intro String_replace_first) auto
  moreover have "?tags = concat (map (\<lambda>a. concat (elements wd od pp cfg a)) assets)"
    by (simp add: elementsStringToInject_def Array_join_Nil concat_concat_map)
  ultimately show ?thesis using assms(1) by (simp add: injectFilesToHtmlTemplate_def)
qed

text \<open>The theorem at a template with a title, one script and one stylesheet.\<close>

theorem inject_after_first_title_witness:
  \<open>injectFilesToHtmlTemplate ''/work'' ''<title>x</title><body>'' [plainFile ''out/app.js'', plainFile ''out/app.css'']
      ''out'' None sampleConfig
    = ''<title>x</title><script src="app.js" defer></script><link rel="stylesheet" href="app.css"><body>''\<close>
proof -
  have a: "''<title>x</title><body>'' = ''<title>x'' @ ''</title>'' @ ''<body>''" by simp
  have b: "\<not> sublist ''</title>'' (''<title>x'' @ ''</title'')" by code_simp
  have c: \<open>elementsStringToInject ''/work'' [plainFile ''out/app.js'', plainFile ''out/app.css''] ''out'' None sampleConfig
     = ''<script src="app.js" defer></script><link rel="stylesheet" href="app.css">''\<close>
    by code_simp
  have d: "CHR ''$'' \<notin> set (elementsStringToInject ''/work'' [plainFile ''out/app.js'', plainFile ''out/app.css''] ''out'' None sampleConfig)"
    unfolding c by simp
  show ?thesis
    using inject_after_first_title[OF a b d] unfolding c by simp
qed

text \<open>
  Claim C1 as stated fails: the tags do not come before \<^verbatim>\<open></title>\<close>.
\<close>

theorem inject_before_title_counterexample:
  "injectFilesToHtmlTemplate ''/work'' ''<title>x</title><body>'' [plainFile ''out/app.js''] ''out'' None sampleConfig
   \<noteq> ''<title>x'' @ elementsStringToInject ''/work'' [plainFile ''out/app.js''] ''out'' None sampleConfig
       @ ''</title>'' @ ''<body>''"
  by code_simp

text \<open>
  The side condition on \<^verbatim>\<open>$\<close> is needed: a path that holds \<^verbatim>\<open>$&\<close> gets the matched
  \<^verbatim>\<open></title>\<close> in its place.
\<close>

lemma dollar_in_path_is_expanded:
  \<open>injectFilesToHtmlTemplate ''/work'' ''<title>x</title>'' [plainFile ''out/a$&.css''] ''out'' None sampleConfig
     = ''<title>x</title><link rel="stylesheet" href="a</title>.css">''\<close>
  by code_simp

text \<open>
  Claim C6: a template in which \<^verbatim>\<open></title>\<close> does not occur comes back as it is,
  whatever the assets are; nothing is raised and the tags are dropped.
\<close>

theorem inject_without_title:
  assumes "\<not> sublist ''</title>'' t"
  shows "injectFilesToHtmlTemplate wd t assets od pp cfg = t"
  using assms by (simp add: injectFilesToHtmlTemplate_def String_replace_absent)

text \<open>The theorem at a template without a title and an asset list whose tags are not empty.\<close>

theorem inject_without_title_witness:
  "\<not> sublist ''</title>'' ''<html><body></body></html>''
   \<and> elementsStringToInject ''/work'' [plainFile ''out/app.js''] ''out'' None sampleConfig \<noteq> []
   \<and> injectFilesToHtmlTemplate ''/work'' ''<html><body></body></html>'' [plainFile ''out/app.js''] ''out'' None sampleConfig
       = ''<html><body></body></html>''"
proof -
  have a: "\<not> sublist ''</title>'' ''<html><body></body></html>''" by code_simp
  have b: "elementsStringToInject ''/work'' [plainFile ''out/app.js''] ''out'' None sampleConfig \<noteq> []"
    by code_simp
  show ?thesis using a b inject_without_title[OF a] by simp
qed

text \<open>
  Claim C2 asks for a script tag in each of the three modes. With \<^verbatim>\<open>scriptLoading\<close>
  set to \<^verbatim>\<open>blocking\<close> the code emits no element for a \<^verbatim>\<open>.js\<close> asset, and the
  template comes back without a script tag.
\<close>

lemma script_tag_by_mode:
  assumes "ext (path_parse (path a)) = ''.js''"
  shows \<open>scriptLoading cfg = Some Module \<Longrightarrow>
           concat (elements wd od pp cfg a)
           = ''<script src="'' @ targetPath wd od pp cfg (path a) @ ''" type="module"></script>''\<close>
    and \<open>scriptLoading cfg = None \<or> scriptLoading cfg = Some Defer \<Longrightarrow>
           concat (elements wd od pp cfg a)
           = ''<script src="'' @ targetPath wd od pp cfg (path a) @ ''" defer></script>''\<close>
    and \<open>scriptLoading cfg = Some Blocking \<Longrightarrow> concat (elements wd od pp cfg a) = []\<close>
  using assms by (auto simp: elements_def Let_def)

theorem blocking_script_not_emitted:
  "elements ''/work'' ''out'' None (sampleConfig\<lparr>scriptLoading := Some Blocking\<rparr>) (plainFile ''out/app.js'') = [[], []]
   \<and> injectFilesToHtmlTemplate ''/work'' ''<title>x</title><body>'' [plainFile ''out/app.js''] ''out'' None
        (sampleConfig\<lparr>scriptLoading := Some Blocking\<rparr>) = ''<title>x</title><body>''"
  by code_simp

section \<open>Joining with the public path\<close>

text \<open>
  Claim C8: an empty public path counts as \<^verbatim>\<open>.\<close>; a public path that does not end
  in a slash gets one slash between it and the normalized relative path, and one that
  ends in a slash gets none; both \<^verbatim>\<open>/static\<close> and \<^verbatim>\<open>/static/\<close> joined with
  \<^verbatim>\<open>js/app.js\<close> give \<^verbatim>\<open>/static/js/app.js\<close>.
\<close>

theorem joinWithPublicPath_one_slash:
  "joinWithPublicPath [] relPath = ''./'' @ path_normalize relPath
   \<and> (pp \<noteq> [] \<and> \<not> suffix ''/'' pp
        \<longrightarrow> joinWithPublicPath pp relPath = pp @ ''/'' @ path_normalize relPath)
   \<and> (suffix ''/'' pp
        \<longrightarrow> joinWithPublicPath pp relPath = pp @ path_normalize relPath)
   \<and> joinWithPublicPath ''/static'' ''js/app.js'' = ''/static/js/app.js''
   \<and> joinWithPublicPath ''/static/'' ''js/app.js'' = ''/static/js/app.js''"
proof -
  have n: "path_normalize ''js/app.js'' = ''js/app.js''" by code_simp
  have s: "\<not> suffix ''/'' ''.''" "\<not> suffix ''/'' ''/static''" "suffix ''/'' ''/static/''"
    by code_simp+
  show ?thesis
    by (auto simp: joinWithPublicPath_def String_endsWith_def Let_def n s)
qed

text \<open>The theorem at a relative path that normalization changes.\<close>

theorem joinWithPublicPath_one_slash_witness:
  "\<not> suffix ''/'' ''/static'' \<and> suffix ''/'' ''/static/''
   \<and> joinWithPublicPath ''/static'' ''a/../js//app.js'' = ''/static/js/app.js''
   \<and> joinWithPublicPath ''/static/'' ''a/../js//app.js'' = ''/static/js/app.js''"
proof -
  have n: "path_normalize ''a/../js//app.js'' = ''js/app.js''" by code_simp
  have a: "\<not> suffix ''/'' ''/static''" by code_simp
  have b: "suffix ''/'' ''/static/''" by code_simp
  show ?thesis
    using joinWithPublicPath_one_slash[of "''a/../js//app.js''" "''/static''"]
      joinWithPublicPath_one_slash[of "''a/../js//app.js''" "''/static/''"] a b
    unfolding n by simp
qed

section \<open>Rendering without variables\<close>

text \<open>
  Claim C7: without a \<^verbatim>\<open>define\<close> mapping the template text is returned as it is,
  be it given inline or read from a file, and the result does not depend on the
  template engine, which is not called.
\<close>

theorem renderTemplate_without_define:
  assumes "defineVars cfg = None"
  shows "(htmlTemplate cfg = Some t \<and> t \<noteq> [] \<and> fs t = None
            \<longrightarrow> renderTemplate fs lodashTemplate cfg = Inr t)
       \<and> (htmlTemplate cfg = Some f \<and> f \<noteq> [] \<and> fs f = Some (Inr t) \<and> t \<noteq> []
            \<longrightarrow> renderTemplate fs lodashTemplate cfg = Inr t)
       \<and> renderTemplate fs lodashTemplate cfg = renderTemplate fs otherTemplate cfg"
  using assms by (auto simp: renderTemplate_def split: option.splits sum.splits)

text \<open>The theorem at an inline template that holds substitution syntax.\<close>

theorem renderTemplate_without_define_witness:
  "defineVars (sampleConfig\<lparr>htmlTemplate := Some ''<p>${define.x} <%= y %></p>''\<rparr>) = None
   \<and> renderTemplate (\<lambda>p. None) (\<lambda>t d. Inl (Error ''called''))
         (sampleConfig\<lparr>htmlTemplate := Some ''<p>${define.x} <%= y %></p>''\<rparr>)
       = Inr ''<p>${define.x} <%= y %></p>''"
proof -
  have a: "defineVars (sampleConfig\<lparr>htmlTemplate := Some ''<p>${define.x} <%= y %></p>''\<rparr>) = None"
    by (simp add: sampleConfig_def userConfig_def setDefaults_def)
  show ?thesis
    using a renderTemplate_without_define[OF a, of "''<p>${define.x} <%= y %></p>''" "\<lambda>p. None"]
    by simp
qed

section \<open>Entry points without a matching output\<close>

text \<open>
  Claim C3 asks for a fatal error when no build output matches the entry points of a
  target. The test that throws sits inside the loop over the matched outputs, so with
  none matched it is never reached: the target is written without tags and no error
  is reported.
\<close>

theorem unmatched_entry_point_not_reported:
  "collectEntrypoints (setDefaults userConfig)
     (Some [(''out/other.js'', entryOutput ''src/other.ts'' None)]) = []
   \<and> htmlPlugin_onEnd (\<lambda>p. None) (\<lambda>t d. Inr t)
        (sampleBuild [(''out/other.js'', entryOutput ''src/other.ts'' None)]) [userConfig]
     = ([(''out/index.html'', ''<title>x</title><body>'')], None)"
  by code_simp

text \<open>
  In general: when no output matches, the loop has nothing to run over, and the target
  is written with the rendered template as it is.
\<close>

lemma String_replace_self: "CHR ''$'' \<notin> set pat \<Longrightarrow> String_replace s pat pat = s"
proof (cases "String_indexOf pat s")
  case None
  then show ?thesis by (simp add: String_replace_def)
next
  case (Some i)
  assume d: "CHR ''$'' \<notin> set pat"
  from String_indexOf_Some[OF Some] obtain r where "drop i s = pat @ r"
    by (auto simp: prefix_def)
  then have "s = take i s @ pat @ drop (i + length pat) s"
    by (metis add.commute append_eq_conv_conj append_take_drop_id drop_drop)
  with Some d show ?thesis
    by (simp add: String_replace_def getSubstitution_no_dollar)
qed

lemma no_entry_point_no_error:
  assumes "collectEntrypoints cfg (metafile build) = []"
    and "renderTemplate fs lodashTemplate cfg = Inr t"
  shows "processHtmlFile fs lodashTemplate build cfg = Inr (posixJoin [outdir build, filename cfg], t)"
proof -
  have "String_replace t ''</title>'' ''</title>'' = t"
    by (rule String_replace_self) simp
  then show ?thesis
    using assms
    by (simp add: processHtmlFile_def injectFilesToHtmlTemplate_def elementsStringToInject_def)
qed

section \<open>Duplicates among the collected outputs\<close>











section \<open>Only the first placeholder is replaced\<close>

lemma prefix_drop_nth:
  assumes "prefix P (drop j w)" "i < length P"
  shows "w ! (j + i) = P ! i"
proof -
  from assms(1) obtain r where r: "drop j w = P @ r" by (auto simp: prefix_def)
  have "j \<le> length w"
  proof (rule ccontr)
    assume "\<not> j \<le> length w"
    then have "drop j w = []" by simp
    with r assms(2) show False by simp
  qed
  then have "w ! (j + i) = drop j w ! i" by simp
  also have "\<dots> = P ! i" using r assms(2) by (simp add: nth_append)
  finally show ?thesis .
qed

lemma occurrences_disjoint:
  assumes no: "noOverlap P Q"
    and p: "prefix P (drop j w)" and q: "prefix Q (drop k w)" and jk: "j \<le> k"
  shows "j + length P \<le> k"
proof (rule ccontr)
  assume "\<not> j + length P \<le> k"
  then have d: "k - j < length P" using jk by simp
  from no have "\<forall>d\<in>{0..<length P}.
      \<exists>i\<in>{0..<min (length P - d) (length Q)}. P ! (d + i) \<noteq> Q ! i"
    by (simp add: noOverlap_def list_all_iff list_ex_iff)
  with d have "\<exists>i\<in>{0..<min (length P - (k - j)) (length Q)}. P ! ((k - j) + i) \<noteq> Q ! i"
    by simp
  then obtain i where i: "i < length P - (k - j)" "i < length Q"
    and ne: "P ! ((k - j) + i) \<noteq> Q ! i"
    by auto
  have "w ! (j + ((k - j) + i)) = P ! ((k - j) + i)"
    using p i(1) by (intro prefix_drop_nth) auto
  moreover have "w ! (k + i) = Q ! i"
    using q i(2) by (rule prefix_drop_nth)
  moreover have "j + ((k - j) + i) = k + i" using jk by simp
  ultimately show False using ne by simp
qed

lemma String_indexOf_le:
  "\<exists>j\<le>length x. String_indexOf Q (x @ Q @ r) = Some j"
proof (induction x)
  case Nil
  have "String_indexOf Q (Q @ r) = Some 0"
  proof (cases "Q @ r")
    case Nil
    then show ?thesis by simp
  next
    case (Cons a l)
    then have "prefix Q (a # l)" by (metis prefixI)
    with Cons show ?thesis by simp
  qed
  then show ?case by simp
next
  case (Cons c x)
  then obtain j where "j \<le> length x" "String_indexOf Q (x @ Q @ r) = Some j" by blast
  then show ?case by (cases "prefix Q (c # x @ Q @ r)") auto
qed

lemma replace_same_keeps_second:
  assumes "twice Q w"
  shows "sublist Q (String_replace w Q rep)"
proof -
  from assms obtain x y z where w: "w = x @ Q @ y @ Q @ z" by (auto simp: twice_def)
  from String_indexOf_le[of x Q "y @ Q @ z"] obtain j where
    j: "j \<le> length x" "String_indexOf Q w = Some j" using w by auto
  have "drop (j + length Q) w = drop (j + length Q) (x @ Q @ y) @ Q @ z"
    using j(1) w by simp
  then have "String_replace w Q rep
      = (take j w @ getSubstitution Q (take j w) (drop (j + length Q) w) rep
          @ drop (j + length Q) (x @ Q @ y)) @ Q @ z"
    using j(2) by (simp add: String_replace_def)
  then show ?thesis by (metis sublist_appendI)
qed

lemma replace_other_keeps_one:
  assumes no: "noOverlap P Q" "noOverlap Q P" and s: "sublist Q w"
  shows "sublist Q (String_replace w P rep)"
proof (cases "String_indexOf P w")
  case None
  then show ?thesis using s by (simp add: String_replace_def)
next
  case (Some j)
  from s obtain x z where w: "w = x @ Q @ z" by (auto simp: sublist_def)
  have p: "prefix P (drop j w)" using String_indexOf_Some[OF Some] by simp
  have q: "prefix Q (drop (length x) w)" by (simp add: w)
  let ?G = "getSubstitution P (take j w) (drop (j + length P) w) rep"
  have r: "String_replace w P rep = take j w @ ?G @ drop (j + length P) w"
    using Some by (simp add: String_replace_def)
  show ?thesis
  proof (cases "j \<le> length x")
    case True
    from occurrences_disjoint[OF no(1) p q True] have "j + length P \<le> length x" .
    then have "drop (j + length P) w = drop (j + length P) x @ Q @ z" by (simp add: w)
    with r have "String_replace w P rep = (take j w @ ?G @ drop (j + length P) x) @ Q @ z"
      by simp
    then show ?thesis by (metis sublist_appendI)
  next
    case False
    then have "length x \<le> j" by simp
    from occurrences_disjoint[OF no(2) q p this] have "length x + length Q \<le> j" .
    then have "take j w = x @ Q @ take (j - length x - length Q) z" by (simp add: w)
    with r have "String_replace w P rep
        = x @ Q @ (take (j - length x - length Q) z @ ?G @ drop (j + length P) w)"
      by simp
    then show ?thesis by (metis sublist_appendI)
  qed
qed

lemma replace_other_keeps_two:
  assumes no: "noOverlap P Q" "noOverlap Q P" and t: "twice Q w"
  shows "twice Q (String_replace w P rep)"
proof (cases "String_indexOf P w")
  case None
  then show ?thesis using t by (simp add: String_replace_def)
next
  case (Some j)
  from t obtain x y z where w: "w = x @ Q @ y @ Q @ z" by (auto simp: twice_def)
  have p: "prefix P (drop j w)" using String_indexOf_Some[OF Some] by simp
  have q1: "prefix Q (drop (length x) w)" by (simp add: w)
  have q2: "prefix Q (drop (length x + length Q + length y) w)" by (simp add: w)
  let ?G = "getSubstitution P (take j w) (drop (j + length P) w) rep"
  have r: "String_replace w P rep = take j w @ ?G @ drop (j + length P) w"
    using Some by (simp add: String_replace_def)
  consider (a) "j \<le> length x"
    | (b) "length x \<le> j" "j \<le> length x + length Q + length y"
    | (c) "length x + length Q + length y \<le> j"
    by linarith
  then show ?thesis
  proof cases
    case a
    from occurrences_disjoint[OF no(1) p q1 a] have "j + length P \<le> length x" .
    then have "drop (j + length P) w = drop (j + length P) x @ Q @ y @ Q @ z" by (simp add: w)
    with r have "String_replace w P rep = (take j w @ ?G @ drop (j + length P) x) @ Q @ y @ Q @ z"
      by simp
    then show ?thesis unfolding twice_def by blast
  next
    case b
    from occurrences_disjoint[OF no(2) q1 p b(1)] have l: "length x + length Q \<le> j" .
    from occurrences_disjoint[OF no(1) p q2 b(2)]
    have u: "j + length P \<le> length x + length Q + length y" .
    have "take j w = x @ Q @ take (j - length x - length Q) y" using l u by (simp add: w)
    moreover have "drop (j + length P) w
        = drop (j + length P - length x - length Q) y @ Q @ z" using l u by (simp add: w)
    ultimately have "String_replace w P rep
        = x @ Q @ (take (j - length x - length Q) y @ ?G
                    @ drop (j + length P - length x - length Q) y) @ Q @ z"
      using r by simp
    then show ?thesis unfolding twice_def by blast
  next
    case c
    from occurrences_disjoint[OF no(2) q2 p c]
    have l: "length x + length Q + length y + length Q \<le> j" .
    have "take j w = x @ Q @ y @ Q @ take (j - length x - length Q - length y - length Q) z"
      using l by (simp add: w)
    with r have "String_replace w P rep
        = x @ Q @ y @ Q @ (take (j - length x - length Q - length y - length Q) z @ ?G
                            @ drop (j + length P) w)"
      by simp
    then show ?thesis unfolding twice_def by blast
  qed
qed

lemma escapeRegExp_append: "escapeRegExp (a @ b) = escapeRegExp a @ escapeRegExp b"
  by (simp add: escapeRegExp_def)

lemma escapeRegExp_twice: "twice Q w \<Longrightarrow> twice (escapeRegExp Q) (escapeRegExp w)"
  unfolding twice_def by (metis escapeRegExp_append)

lemma escapeRegExp_sublist: "sublist Q w \<Longrightarrow> sublist (escapeRegExp Q) (escapeRegExp w)"
  unfolding sublist_def by (metis escapeRegExp_append)

lemma escaped_placeholders:
  "escapeRegExp ''[hash]'' = escapedPlaceholder ''hash''"
  "escapeRegExp ''[name]'' = escapedPlaceholder ''name''"
  "escapeRegExp ''[dir]'' = escapedPlaceholder ''dir''"
  by code_simp+

lemma raw_noOverlap:
  "noOverlap ''[hash]'' ''[name]''" "noOverlap ''[name]'' ''[hash]''"
  "noOverlap ''[hash]'' ''[dir]''" "noOverlap ''[dir]'' ''[hash]''"
  "noOverlap ''[name]'' ''[dir]''" "noOverlap ''[dir]'' ''[name]''"
  by code_simp+

lemma escaped_noOverlap:
  "noOverlap (escapedPlaceholder ''hash'') (escapedPlaceholder ''name'')"
  "noOverlap (escapedPlaceholder ''name'') (escapedPlaceholder ''hash'')"
  "noOverlap (escapedPlaceholder ''hash'') (escapedPlaceholder ''dir'')"
  "noOverlap (escapedPlaceholder ''dir'') (escapedPlaceholder ''hash'')"
  "noOverlap (escapedPlaceholder ''name'') (escapedPlaceholder ''dir'')"
  "noOverlap (escapedPlaceholder ''dir'') (escapedPlaceholder ''name'')"
  by code_simp+

lemma first_pattern_keeps_hash:
  assumes "twice ''[hash]'' t"
  shows "sublist (escapedPlaceholder ''hash'') (findVariablesRegexString t)"
proof -
  have "twice (escapedPlaceholder ''hash'') (escapeRegExp t)"
    using escapeRegExp_twice[OF assms] by (simp only: escaped_placeholders)
  then have "sublist (escapedPlaceholder ''hash'')
      (String_replace (escapeRegExp t) (escapedPlaceholder ''hash'') HASH_REGEX)"
    by (rule replace_same_keeps_second)
  then have "sublist (escapedPlaceholder ''hash'')
      (String_replace (String_replace (escapeRegExp t) (escapedPlaceholder ''hash'') HASH_REGEX)
         (escapedPlaceholder ''name'') NAME_REGEX)"
    by (rule replace_other_keeps_one[OF escaped_noOverlap(2,1)])
  then show ?thesis
    unfolding findVariablesRegexString_def
    by (rule replace_other_keeps_one[OF escaped_noOverlap(4,3)])
qed

lemma first_pattern_keeps_name:
  assumes "twice ''[name]'' t"
  shows "sublist (escapedPlaceholder ''name'') (findVariablesRegexString t)"
proof -
  have "twice (escapedPlaceholder ''name'') (escapeRegExp t)"
    using escapeRegExp_twice[OF assms] by (simp only: escaped_placeholders)
  then have "twice (escapedPlaceholder ''name'')
      (String_replace (escapeRegExp t) (escapedPlaceholder ''hash'') HASH_REGEX)"
    by (rule replace_other_keeps_two[OF escaped_noOverlap(1,2)])
  then have "sublist (escapedPlaceholder ''name'')
      (String_replace (String_replace (escapeRegExp t) (escapedPlaceholder ''hash'') HASH_REGEX)
         (escapedPlaceholder ''name'') NAME_REGEX)"
    by (rule replace_same_keeps_second)
  then show ?thesis
    unfolding findVariablesRegexString_def
    by (rule replace_other_keeps_one[OF escaped_noOverlap(6,5)])
qed

lemma first_pattern_keeps_dir:
  assumes "twice ''[dir]'' t"
  shows "sublist (escapedPlaceholder ''dir'') (findVariablesRegexString t)"
proof -
  have "twice (escapedPlaceholder ''dir'') (escapeRegExp t)"
    using escapeRegExp_twice[OF assms] by (simp only: escaped_placeholders)
  then have "twice (escapedPlaceholder ''dir'')
      (String_replace (escapeRegExp t) (escapedPlaceholder ''hash'') HASH_REGEX)"
    by (rule replace_other_keeps_two[OF escaped_noOverlap(3,4)])
  then have "twice (escapedPlaceholder ''dir'')
      (String_replace (String_replace (escapeRegExp t) (escapedPlaceholder ''hash'') HASH_REGEX)
         (escapedPlaceholder ''name'') NAME_REGEX)"
    by (rule replace_other_keeps_two[OF escaped_noOverlap(5,6)])
  then show ?thesis
    unfolding findVariablesRegexString_def
    by (rule replace_same_keeps_second)
qed

lemma second_pattern_keeps_hash:
  assumes "twice ''[hash]'' t"
  shows "sublist (escapedPlaceholder ''hash'') (findFilesWithSameVariablesRegexString t nm d)"
proof -
  have "twice ''[hash]'' (String_replace t ''[name]'' n')" for n'
    using assms by (rule replace_other_keeps_two[OF raw_noOverlap(2,1)])
  then have "twice ''[hash]'' (String_replace (String_replace t ''[name]'' n') ''[dir]'' d')" for n' d'
    by (rule replace_other_keeps_two[OF raw_noOverlap(4,3)])
  then have "twice (escapedPlaceholder ''hash'')
      (escapeRegExp (String_replace (String_replace t ''[name]'' n') ''[dir]'' d'))" for n' d'
    using escapeRegExp_twice[of "''[hash]''"] by (simp only: escaped_placeholders)
  then show ?thesis
    unfolding findFilesWithSameVariablesRegexString_def
    by (rule replace_same_keeps_second)
qed

lemma second_pattern_keeps_name:
  assumes "twice ''[name]'' t"
  shows "sublist (escapedPlaceholder ''name'') (findFilesWithSameVariablesRegexString t nm d)"
proof -
  have "sublist ''[name]'' (String_replace t ''[name]'' n')" for n'
    using assms by (rule replace_same_keeps_second)
  then have "sublist ''[name]'' (String_replace (String_replace t ''[name]'' n') ''[dir]'' d')" for n' d'
    by (rule replace_other_keeps_one[OF raw_noOverlap(6,5)])
  then have "sublist (escapedPlaceholder ''name'')
      (escapeRegExp (String_replace (String_replace t ''[name]'' n') ''[dir]'' d'))" for n' d'
    using escapeRegExp_sublist[of "''[name]''"] by (simp only: escaped_placeholders)
  then show ?thesis
    unfolding findFilesWithSameVariablesRegexString_def
    by (rule replace_other_keeps_one[OF escaped_noOverlap(1,2)])
qed

lemma second_pattern_keeps_dir:
  assumes "twice ''[dir]'' t"
  shows "sublist (escapedPlaceholder ''dir'') (findFilesWithSameVariablesRegexString t nm d)"
proof -
  have "twice ''[dir]'' (String_replace t ''[name]'' n')" for n'
    using assms by (rule replace_other_keeps_two[OF raw_noOverlap(5,6)])
  then have "sublist ''[dir]'' (String_replace (String_replace t ''[name]'' n') ''[dir]'' d')" for n' d'
    by (rule replace_same_keeps_second)
  then have "sublist (escapedPlaceholder ''dir'')
      (escapeRegExp (String_replace (String_replace t ''[name]'' n') ''[dir]'' d'))" for n' d'
    using escapeRegExp_sublist[of "''[dir]''"] by (simp only: escaped_placeholders)
  then show ?thesis
    unfolding findFilesWithSameVariablesRegexString_def
    by (rule replace_other_keeps_one[OF escaped_noOverlap(3,4)])
qed

section \<open>The pattern strings are well formed\<close>

lemma tokensText_simps [simp]:
  "tokensText [] = []"
  "tokensText (t # ts) = tokenText t @ tokensText ts"
  "tokensText (ts @ us) = tokensText ts @ tokensText us"
  by (simp_all add: tokensText_def)

lemma escapeRegExp_tokens: "escapeRegExp s = tokensText (map Lit s)"
  by (induction s) (simp_all add: escapeRegExp_def)

lemma special_chars:
  "isSpecial bslash" "isSpecial CHR ''[''" "isSpecial CHR '']''" "isSpecial CHR ''(''"
  "isSpecial CHR '')''" "isSpecial CHR ''?''" "isSpecial CHR ''+''" "isSpecial CHR ''*''"
  "isSpecial CHR ''{''" "isSpecial CHR ''}''" "isSpecial CHR ''^''" "isSpecial CHR ''$''"
  "isSpecial CHR ''.''" "isSpecial CHR ''|''"
  by (simp_all add: isSpecial_def)

lemma capture_facts:
  assumes "isCapture g"
  shows "g \<noteq> []" "hd g = CHR ''(''" "CHR ''$'' \<notin> set g"
    "\<not> sublist [bslash, CHR ''[''] g" "last g \<noteq> bslash"
proof -
  have d: "DIR_REGEX \<noteq> [] \<and> hd DIR_REGEX = CHR ''('' \<and> CHR ''$'' \<notin> set DIR_REGEX
      \<and> \<not> sublist [bslash, CHR ''[''] DIR_REGEX \<and> last DIR_REGEX \<noteq> bslash"
    by code_simp
  have h: "HASH_REGEX \<noteq> [] \<and> hd HASH_REGEX = CHR ''('' \<and> CHR ''$'' \<notin> set HASH_REGEX
      \<and> \<not> sublist [bslash, CHR ''[''] HASH_REGEX \<and> last HASH_REGEX \<noteq> bslash"
    by code_simp
  have n: "NAME_REGEX \<noteq> [] \<and> hd NAME_REGEX = CHR ''('' \<and> CHR ''$'' \<notin> set NAME_REGEX
      \<and> \<not> sublist [bslash, CHR ''[''] NAME_REGEX \<and> last NAME_REGEX \<noteq> bslash"
    by code_simp
  from assms consider "g = DIR_REGEX" | "g = HASH_REGEX" | "g = NAME_REGEX"
    unfolding isCapture_def by blast
  then have "g \<noteq> [] \<and> hd g = CHR ''('' \<and> CHR ''$'' \<notin> set g
      \<and> \<not> sublist [bslash, CHR ''[''] g \<and> last g \<noteq> bslash"
  proof cases
    case 1
    show ?thesis unfolding 1 by (rule d)
  next
    case 2
    show ?thesis unfolding 2 by (rule h)
  next
    case 3
    show ?thesis unfolding 3 by (rule n)
  qed
  then show "g \<noteq> []" "hd g = CHR ''(''" "CHR ''$'' \<notin> set g"
    "\<not> sublist [bslash, CHR ''[''] g" "last g \<noteq> bslash"
    by simp_all
qed

lemma headOK_tokens:
  assumes "list_all isCapture (captures ts)"
  shows "headOK (tokensText ts)"
proof (cases ts)
  case Nil
  then show ?thesis by (simp add: headOK_def)
next
  case (Cons t us)
  show ?thesis
  proof (cases t)
    case (Lit c)
    with Cons show ?thesis by (simp add: headOK_def)
  next
    case (Grp g)
    with Cons assms have "isCapture g" by simp
    from capture_facts(1,2)[OF this] obtain g' where "g = CHR ''('' # g'" by (cases g) auto
    with Cons Grp show ?thesis by (simp add: headOK_def)
  qed
qed

lemma headOK_not_bracket:
  assumes "headOK r"
  shows "\<not> prefix (CHR ''['' # x) r"
proof
  assume p: "prefix (CHR ''['' # x) r"
  then obtain r' where r: "r = CHR ''['' # r'" by (cases r) auto
  with assms have "CHR ''['' = bslash \<or> CHR ''['' = CHR ''('' \<or> \<not> isSpecial CHR ''[''"
    by (simp add: headOK_def)
  then show False using special_chars(2) by (simp add: bslash_def)
qed

lemma lit_prefix:
  "prefix (tokenText (Lit c) @ A) (tokenText (Lit c') @ B) \<longleftrightarrow> c = c' \<and> prefix A B"
  using special_chars(1) by auto

lemma tokens_prefix:
  assumes "list_all isCapture (captures ts)"
  shows "prefix (tokensText (map Lit q)) (tokensText ts) \<longleftrightarrow> prefix (map Lit q) ts"
  using assms
proof (induction q arbitrary: ts)
  case Nil
  then show ?case by simp
next
  case (Cons c q)
  show ?case
  proof (cases ts)
    case Nil
    then show ?thesis by simp
  next
    case ts: (Cons t us)
    show ?thesis
    proof (cases t)
      case (Lit c')
      with ts Cons.prems have "list_all isCapture (captures us)" by simp
      from Cons.IH[OF this] show ?thesis
        unfolding ts Lit by (simp only: list.map tokensText_simps lit_prefix prefix_code Cons_prefix_Cons Token.inject)
    next
      case (Grp g)
      with ts Cons.prems have "isCapture g" by simp
      from capture_facts(1,2)[OF this] obtain g' where "g = CHR ''('' # g'" by (cases g) auto
      then show ?thesis unfolding ts Grp using special_chars(4) by (auto simp: bslash_def)
    qed
  qed
qed

lemma String_indexOf_skip:
  "(\<forall>k<length u. \<not> prefix E (drop k u @ r)) \<Longrightarrow>
   String_indexOf E (u @ r) = map_option (\<lambda>i. i + length u) (String_indexOf E r)"
proof (induction u)
  case Nil
  then show ?case by (simp add: option.map_ident)
next
  case (Cons c u)
  have "\<not> prefix E (c # u @ r)" using Cons.prems[rule_format, of 0] by simp
  moreover have "\<forall>k<length u. \<not> prefix E (drop k u @ r)"
    using Cons.prems by (metis Suc_less_eq drop_Suc_Cons length_Cons)
  ultimately show ?case using Cons.IH by (simp add: option.map_comp comp_def)
qed

lemma inner_no_escaped_bracket:
  assumes "\<not> sublist [bslash, CHR ''[''] g" "last g \<noteq> bslash" "k < length g"
  shows "\<not> prefix (bslash # CHR ''['' # x) (drop k g @ r)"
proof
  assume p: "prefix (bslash # CHR ''['' # x) (drop k g @ r)"
  show False
  proof (cases "drop k g")
    case Nil
    with assms(3) show False by simp
  next
    case (Cons a rest)
    with p have a: "a = bslash" by simp
    show False
    proof (cases rest)
      case Nil
      with Cons have "drop k g = [a]" by simp
      then have "last g = a" by (metis append_take_drop_id last_snoc)
      with a assms(2) show False by simp
    next
      case rest: (Cons b rest')
      with Cons p have "b = CHR ''[''" by simp
      with a Cons rest have "g = take k g @ [bslash, CHR ''[''] @ rest'"
        by (metis append_Cons append_Nil append_take_drop_id)
      then have "sublist [bslash, CHR ''[''] g" by (metis sublist_appendI)
      with assms(1) show False by simp
    qed
  qed
qed

lemma String_indexOf_prefix: "prefix E w \<Longrightarrow> String_indexOf E w = Some 0"
  by (cases w) auto

lemma token_gap:
  assumes caps: "list_all isCapture (captures (t # ts))"
    and np: "\<not> prefix (bslash # CHR ''['' # x) (tokenText t @ tokensText ts)"
    and k: "k < length (tokenText t)"
  shows "\<not> prefix (bslash # CHR ''['' # x) (drop k (tokenText t) @ tokensText ts)"
proof (cases t)
  case (Lit c)
  have ok: "headOK (tokensText ts)" using caps Lit by (simp add: headOK_tokens)
  show ?thesis
  proof (cases "k = 0")
    case True
    with np show ?thesis by simp
  next
    case False
    with k Lit have sp: "isSpecial c" and k1: "k = 1" by (auto split: if_splits)
    have "\<not> prefix (CHR ''['' # x) (tokensText ts)" using ok by (rule headOK_not_bracket)
    with sp k1 Lit show ?thesis by simp
  qed
next
  case (Grp g)
  with caps have "isCapture g" by simp
  from inner_no_escaped_bracket[OF capture_facts(4,5)[OF this]] k Grp show ?thesis by simp
qed

lemma tokens_indexOf:
  assumes "list_all isCapture (captures ts)"
    and Q: "Q = map Lit (CHR ''['' # q)" and E: "E = tokensText Q"
  shows "String_indexOf E (tokensText ts)
       = map_option (\<lambda>i. length (tokensText (take i ts))) (tokenIndexOf Q ts)"
  using assms(1)
proof (induction ts)
  case Nil
  have "E \<noteq> []" "Q \<noteq> []" unfolding E Q by (simp_all add: special_chars)
  then show ?case by simp
next
  case (Cons t ts)
  have E': "E = bslash # CHR ''['' # tokensText (map Lit q)"
    unfolding E Q by (simp add: special_chars)
  have pre: "prefix E (tokensText us) \<longleftrightarrow> prefix Q us" if "list_all isCapture (captures us)" for us
    unfolding E Q using tokens_prefix[OF that] .
  have caps: "list_all isCapture (captures ts)" using Cons.prems by (cases t) simp_all
  show ?case
  proof (cases "prefix Q (t # ts)")
    case True
    then have "prefix E (tokensText (t # ts))" using pre[OF Cons.prems] by blast
    then have "String_indexOf E (tokensText (t # ts)) = Some 0" by (rule String_indexOf_prefix)
    with True show ?thesis by simp
  next
    case False
    then have np: "\<not> prefix E (tokenText t @ tokensText ts)"
      using pre[OF Cons.prems] by simp
    have "\<forall>k<length (tokenText t). \<not> prefix E (drop k (tokenText t) @ tokensText ts)"
      using token_gap[OF Cons.prems] np unfolding E' by blast
    then have "String_indexOf E (tokenText t @ tokensText ts)
        = map_option (\<lambda>i. i + length (tokenText t)) (String_indexOf E (tokensText ts))"
      by (rule String_indexOf_skip)
    also have "\<dots> = map_option (\<lambda>i. i + length (tokenText t))
        (map_option (\<lambda>i. length (tokensText (take i ts))) (tokenIndexOf Q ts))"
      using Cons.IH[OF caps] by simp
    also have "\<dots> = map_option (\<lambda>i. length (tokensText (take i (t # ts))))
        (map_option Suc (tokenIndexOf Q ts))"
      by (cases "tokenIndexOf Q ts") simp_all
    finally show ?thesis using False by simp
  qed
qed

lemma tokenIndexOf_Some:
  "tokenIndexOf pat ts = Some i \<Longrightarrow> ts = take i ts @ pat @ drop (i + length pat) ts"
proof (induction ts arbitrary: i)
  case Nil
  then show ?case by (auto split: if_splits)
next
  case (Cons t ts)
  show ?case
  proof (cases "prefix pat (t # ts)")
    case True
    with Cons.prems have "i = 0" by simp
    with True show ?thesis by (auto simp: prefix_def)
  next
    case False
    with Cons.prems obtain j where j: "tokenIndexOf pat ts = Some j" "i = Suc j" by auto
    from Cons.IH[OF j(1)] j(2) show ?thesis by simp
  qed
qed

lemma tokens_replace:
  assumes caps: "list_all isCapture (captures ts)" and g: "CHR ''$'' \<notin> set g"
    and Q: "Q = map Lit (CHR ''['' # q)" and E: "E = tokensText Q"
  shows "String_replace (tokensText ts) E g = tokensText (tokenReplace ts Q (Grp g))"
proof (cases "tokenIndexOf Q ts")
  case None
  then show ?thesis
    by (simp add: String_replace_def tokenReplace_def tokens_indexOf[OF caps Q E])
next
  case (Some i)
  let ?a = "take i ts" and ?b = "drop (i + length Q) ts"
  have ts: "ts = ?a @ Q @ ?b" using tokenIndexOf_Some[OF Some] .
  have "tokensText ts = tokensText (?a @ Q @ ?b)" using ts by simp
  then have tt: "tokensText ts = tokensText ?a @ E @ tokensText ?b"
    by (simp only: tokensText_simps E)
  have ix: "String_indexOf E (tokensText ts) = Some (length (tokensText ?a))"
    using tokens_indexOf[OF caps Q E] Some by simp
  have "take (length (tokensText ?a)) (tokensText ts) = tokensText ?a"
    by (subst tt) simp
  moreover have "drop (length (tokensText ?a) + length E) (tokensText ts) = tokensText ?b"
    by (subst tt) simp
  ultimately have "String_replace (tokensText ts) E g = tokensText ?a @ g @ tokensText ?b"
    unfolding String_replace_def ix by (simp add: getSubstitution_no_dollar[OF g])
  then show ?thesis using Some by (simp add: tokenReplace_def)
qed

lemma captures_append: "captures (ts @ us) = captures ts @ captures us"
  by (induction ts rule: captures.induct) simp_all

lemma captures_Lit: "captures (map Lit q) = []"
  by (induction q) simp_all

lemma captures_replace:
  "set (captures (tokenReplace ts (map Lit q) (Grp g))) \<subseteq> insert g (set (captures ts))
   \<and> (distinct (captures ts) \<and> g \<notin> set (captures ts)
        \<longrightarrow> distinct (captures (tokenReplace ts (map Lit q) (Grp g))))"
proof (cases "tokenIndexOf (map Lit q) ts")
  case None
  then show ?thesis by (auto simp: tokenReplace_def)
next
  case (Some i)
  let ?a = "take i ts" and ?b = "drop (i + length (map Lit q)) ts"
  have "ts = ?a @ map Lit q @ ?b" using tokenIndexOf_Some[OF Some] .
  then have "captures ts = captures (?a @ map Lit q @ ?b)" by simp
  then have c: "captures ts = captures ?a @ captures ?b"
    by (simp only: captures_append captures_Lit append_Nil)
  have r: "captures (tokenReplace ts (map Lit q) (Grp g)) = captures ?a @ g # captures ?b"
    using Some by (simp add: tokenReplace_def captures_append)
  show ?thesis unfolding r c by auto
qed

lemma special_not_alnum:
  assumes "isSpecial c"
  shows "\<not> isAlnum c" "c \<noteq> CHR ''s''" "c \<noteq> CHR ''S''"
  using assms
  by (auto simp: isSpecial_def isWhiteSpace_def isAlnum_def isDigit_def inRange_def bslash_def)

lemma nonspecial_plain:
  assumes "\<not> isSpecial c"
  shows "c \<noteq> bslash" "c \<noteq> CHR ''(''" "c \<noteq> CHR '')''" "c \<noteq> CHR ''[''"
    "c \<notin> set ''^$.*+?()]{}|''"
  using assms by (auto simp: isSpecial_def)

lemma parseQuantifier_head: "headOK r \<Longrightarrow> parseQuantifier r = Some (QOne, 0)"
  by (cases r) (auto simp: parseQuantifier_def headOK_def bslash_def special_chars)

lemma parse_Lit:
  assumes "headOK r"
  shows "parseItems d (tokenText (Lit c) @ r)
       = map_option ((#) (Single (AChar c) QOne)) (parseItems d r)"
proof (cases "isSpecial c")
  case True
  have "parseAtom bslash (c # r) = Some (AChar c, 1)"
    using special_not_alnum[OF True] by (simp add: parseAtom_def)
  then show ?thesis
    using True parseQuantifier_head[OF assms] by (simp add: bslash_def)
next
  case False
  have "parseAtom c r = Some (AChar c, 0)"
    using nonspecial_plain[OF False] by (simp add: parseAtom_def)
  then show ?thesis
    using False nonspecial_plain(2,3)[OF False] parseQuantifier_head[OF assms] by simp
qed

lemma parse_HASH:
  "parseItems 0 (HASH_REGEX @ r)
       = map_option ((@) [GroupOpen ''hash'',
            Single (AClass False [ClassRange CHR ''A'' CHR ''Z'', ClassRange CHR ''2'' CHR ''7'']) (QExact 8),
            GroupClose]) (parseItems 0 r)"
  by (cases "parseItems 0 r") (simp_all add: HASH_REGEX_def parseGroupName_def parseAtom_def parseQuantifier_def Let_def
      isAlnum_def isDigit_def inRange_def bslash_def option.map_comp comp_def)

lemma parse_NAME:
  "parseItems 0 (NAME_REGEX @ r)
       = map_option ((@) [GroupOpen ''name'',
            Single (AClass True [ClassSpace, ClassChar CHR ''/'']) QPlus,
            GroupClose]) (parseItems 0 r)"
  by (cases "parseItems 0 r") (simp_all add: NAME_REGEX_def parseGroupName_def parseAtom_def parseQuantifier_def Let_def
      isAlnum_def isDigit_def inRange_def bslash_def option.map_comp comp_def)

lemma parse_DIR:
  "parseItems 0 (DIR_REGEX @ r)
       = map_option ((@) [GroupOpen ''dir'', Single ANonSpace QPlus,
            Single (AChar CHR ''/'') QOpt, GroupClose]) (parseItems 0 r)"
  by (cases "parseItems 0 r") (simp_all add: DIR_REGEX_def parseGroupName_def parseAtom_def parseQuantifier_def Let_def
      isAlnum_def isDigit_def inRange_def bslash_def option.map_comp comp_def)

lemma capture_items:
  "tokenItems (Grp HASH_REGEX) = [GroupOpen ''hash'',
     Single (AClass False [ClassRange CHR ''A'' CHR ''Z'', ClassRange CHR ''2'' CHR ''7'']) (QExact 8),
     GroupClose]"
  "tokenItems (Grp NAME_REGEX) = [GroupOpen ''name'',
     Single (AClass True [ClassSpace, ClassChar CHR ''/'']) QPlus, GroupClose]"
  "tokenItems (Grp DIR_REGEX) = [GroupOpen ''dir'', Single ANonSpace QPlus,
     Single (AChar CHR ''/'') QOpt, GroupClose]"
  using parse_HASH[of "[]"] parse_NAME[of "[]"] parse_DIR[of "[]"] by simp_all

lemma parse_Grp:
  assumes "isCapture g"
  shows "parseItems 0 (g @ r) = map_option ((@) (tokenItems (Grp g))) (parseItems 0 r)"
proof -
  from assms consider "g = DIR_REGEX" | "g = HASH_REGEX" | "g = NAME_REGEX"
    unfolding isCapture_def by blast
  then show ?thesis
  proof cases
    case 1
    show ?thesis unfolding 1 capture_items by (rule parse_DIR)
  next
    case 2
    show ?thesis unfolding 2 capture_items by (rule parse_HASH)
  next
    case 3
    show ?thesis unfolding 3 capture_items by (rule parse_NAME)
  qed
qed

lemma parse_tokens:
  assumes "list_all isCapture (captures ts)"
  shows "parseItems 0 (tokensText ts) = Some (concat (map tokenItems ts))"
  using assms
proof (induction ts)
  case Nil
  then show ?case by simp
next
  case (Cons t ts)
  show ?case
  proof (cases t)
    case (Lit c)
    with Cons.prems have caps: "list_all isCapture (captures ts)" by simp
    have "parseItems 0 (tokenText (Lit c) @ tokensText ts)
        = map_option ((#) (Single (AChar c) QOne)) (parseItems 0 (tokensText ts))"
      by (rule parse_Lit[OF headOK_tokens[OF caps]])
    with Cons.IH[OF caps] Lit show ?thesis by simp
  next
    case (Grp g)
    with Cons.prems have g: "isCapture g" and caps: "list_all isCapture (captures ts)" by simp_all
    from parse_Grp[OF g, of "tokensText ts"] Cons.IH[OF caps] Grp show ?thesis by simp
  qed
qed

lemma groupNames_append: "groupNames (xs @ ys) = groupNames xs @ groupNames ys"
  by (induction xs rule: groupNames.induct) simp_all

lemma capture_distinct:
  "DIR_REGEX \<noteq> HASH_REGEX" "DIR_REGEX \<noteq> NAME_REGEX" "HASH_REGEX \<noteq> NAME_REGEX"
  by code_simp+

lemma groupNames_capture:
  assumes "isCapture g"
  shows "groupNames (tokenItems (Grp g)) = [captureName g]"
proof -
  from assms consider "g = DIR_REGEX" | "g = HASH_REGEX" | "g = NAME_REGEX"
    unfolding isCapture_def by blast
  then show ?thesis
    using capture_distinct by cases (simp_all add: capture_items captureName_def del: tokenItems.simps)
qed

lemma groupNames_tokens:
  assumes "list_all isCapture (captures ts)"
  shows "groupNames (concat (map tokenItems ts)) = map captureName (captures ts)"
  using assms
proof (induction ts rule: captures.induct)
  case 1
  then show ?case by simp
next
  case (2 c ts)
  then show ?case by simp
next
  case (3 g ts)
  then have g: "isCapture g" and caps: "list_all isCapture (captures ts)" by simp_all
  from 3(1)[OF caps] groupNames_capture[OF g] show ?case
    by (simp add: groupNames_append del: tokenItems.simps)
qed

lemma captureName_inj:
  assumes "isCapture g" "isCapture h" "captureName g = captureName h"
  shows "g = h"
  using assms capture_distinct unfolding isCapture_def captureName_def
  by (auto split: if_splits)

lemma RegExp_new_tokens:
  assumes caps: "list_all isCapture (captures ts)" and d: "distinct (captures ts)"
  shows "RegExp_new (tokensText ts) = Inr (concat (map tokenItems ts))"
proof -
  have "inj_on captureName (set (captures ts))"
    using caps by (auto simp: inj_on_def list_all_iff intro: captureName_inj)
  with d have "distinct (map captureName (captures ts))" by (simp add: distinct_map)
  then have "distinct (groupNames (concat (map tokenItems ts)))"
    by (simp only: groupNames_tokens[OF caps])
  then show ?thesis by (simp add: RegExp_new_def parse_tokens[OF caps])
qed

lemma placeholder_tokens:
  "escapedPlaceholder ''hash'' = tokensText (map Lit (CHR ''['' # ''hash]''))"
  "escapedPlaceholder ''name'' = tokensText (map Lit (CHR ''['' # ''name]''))"
  "escapedPlaceholder ''dir'' = tokensText (map Lit (CHR ''['' # ''dir]''))"
  using escaped_placeholders by (simp_all only: escapeRegExp_tokens)

lemma isCapture_consts: "isCapture DIR_REGEX" "isCapture HASH_REGEX" "isCapture NAME_REGEX"
  by (simp_all add: isCapture_def)

lemma replace_step:
  assumes caps: "list_all isCapture (captures ts)" and d: "distinct (captures ts)"
    and g: "isCapture g" "g \<notin> set (captures ts)"
    and Q: "Q = map Lit (CHR ''['' # q)"
  shows "String_replace (tokensText ts) (tokensText Q) g = tokensText (tokenReplace ts Q (Grp g))"
    and "list_all isCapture (captures (tokenReplace ts Q (Grp g)))"
    and "distinct (captures (tokenReplace ts Q (Grp g)))"
    and "set (captures (tokenReplace ts Q (Grp g))) \<subseteq> insert g (set (captures ts))"
proof -
  show "String_replace (tokensText ts) (tokensText Q) g = tokensText (tokenReplace ts Q (Grp g))"
    by (rule tokens_replace[OF caps capture_facts(3)[OF g(1)] Q refl])
  have c: "set (captures (tokenReplace ts Q (Grp g))) \<subseteq> insert g (set (captures ts))"
    and dd: "distinct (captures ts) \<and> g \<notin> set (captures ts)
        \<longrightarrow> distinct (captures (tokenReplace ts Q (Grp g)))"
    using captures_replace[of ts "CHR ''['' # q" g] unfolding Q by blast+
  show "set (captures (tokenReplace ts Q (Grp g))) \<subseteq> insert g (set (captures ts))" by (rule c)
  show "distinct (captures (tokenReplace ts Q (Grp g)))" using dd d g(2) by blast
  show "list_all isCapture (captures (tokenReplace ts Q (Grp g)))"
    using c caps g(1) unfolding list_all_iff by blast
qed

lemma first_pattern_tokens:
  "\<exists>ts. findVariablesRegexString t = tokensText ts
      \<and> list_all isCapture (captures ts) \<and> distinct (captures ts)"
proof -
  define Qh where "Qh = map Lit (CHR ''['' # ''hash]'')"
  define Qn where "Qn = map Lit (CHR ''['' # ''name]'')"
  define Qd where "Qd = map Lit (CHR ''['' # ''dir]'')"
  define ts0 where "ts0 = map Lit t"
  define ts1 where "ts1 = tokenReplace ts0 Qh (Grp HASH_REGEX)"
  define ts2 where "ts2 = tokenReplace ts1 Qn (Grp NAME_REGEX)"
  define ts3 where "ts3 = tokenReplace ts2 Qd (Grp DIR_REGEX)"
  have c0: "captures ts0 = []" unfolding ts0_def by (rule captures_Lit)
  have s1: "String_replace (tokensText ts0) (tokensText Qh) HASH_REGEX = tokensText ts1"
    and l1: "list_all isCapture (captures ts1)" and d1: "distinct (captures ts1)"
    and u1: "set (captures ts1) \<subseteq> {HASH_REGEX}"
    unfolding ts1_def
    using replace_step[of ts0 HASH_REGEX Qh "''hash]''"] c0 isCapture_consts Qh_def by simp_all
  have n1: "NAME_REGEX \<notin> set (captures ts1)" using u1 capture_distinct by auto
  have s2: "String_replace (tokensText ts1) (tokensText Qn) NAME_REGEX = tokensText ts2"
    and l2: "list_all isCapture (captures ts2)" and d2: "distinct (captures ts2)"
    and u2: "set (captures ts2) \<subseteq> insert NAME_REGEX (set (captures ts1))"
    unfolding ts2_def
    using replace_step[OF l1 d1 isCapture_consts(3) n1 Qn_def] by blast+
  have n2: "DIR_REGEX \<notin> set (captures ts2)" using u1 u2 capture_distinct by auto
  have s3: "String_replace (tokensText ts2) (tokensText Qd) DIR_REGEX = tokensText ts3"
    and l3: "list_all isCapture (captures ts3)" and d3: "distinct (captures ts3)"
    unfolding ts3_def
    using replace_step[OF l2 d2 isCapture_consts(1) n2 Qd_def] by blast+
  have "findVariablesRegexString t = tokensText ts3"
    unfolding findVariablesRegexString_def placeholder_tokens escapeRegExp_tokens
    using s1 s2 s3 unfolding ts0_def Qh_def Qn_def Qd_def by simp
  with l3 d3 show ?thesis by blast
qed

lemma second_pattern_tokens:
  "\<exists>ts. findFilesWithSameVariablesRegexString t nm d = tokensText ts
      \<and> list_all isCapture (captures ts) \<and> distinct (captures ts)"
proof -
  define u where "u = String_replace
             (String_replace t ''[name]'' (case nm of None \<Rightarrow> [] | Some n \<Rightarrow> n))
             ''[dir]'' (case d of None \<Rightarrow> [] | Some x \<Rightarrow> x)"
  define Qh where "Qh = map Lit (CHR ''['' # ''hash]'')"
  define ts0 where "ts0 = map Lit u"
  define ts1 where "ts1 = tokenReplace ts0 Qh (Grp HASH_REGEX)"
  have c0: "captures ts0 = []" unfolding ts0_def by (rule captures_Lit)
  have s1: "String_replace (tokensText ts0) (tokensText Qh) HASH_REGEX = tokensText ts1"
    and l1: "list_all isCapture (captures ts1)" and d1: "distinct (captures ts1)"
    unfolding ts1_def
    using replace_step[of ts0 HASH_REGEX Qh "''hash]''"] c0 isCapture_consts Qh_def by simp_all
  have "findFilesWithSameVariablesRegexString t nm d = tokensText ts1"
    unfolding findFilesWithSameVariablesRegexString_def placeholder_tokens escapeRegExp_tokens
    using s1 unfolding ts0_def Qh_def u_def by simp
  with l1 d1 show ?thesis by blast
qed

lemma first_pattern_compiles: "\<exists>re. RegExp_new (findVariablesRegexString t) = Inr re"
  using first_pattern_tokens[of t] RegExp_new_tokens by metis

lemma second_pattern_compiles:
  "\<exists>re. RegExp_new (findFilesWithSameVariablesRegexString t nm d) = Inr re"
  using second_pattern_tokens[of t nm d] RegExp_new_tokens by metis

lemma filterE_total: "(\<And>x. f x = Inr (g x)) \<Longrightarrow> filterE f xs = Inr (filter g xs)"
  by (induction xs) simp_all

lemma tokenItems_Lit: "concat (map tokenItems (map Lit q)) = literalItems q"
  by (induction q) (simp_all add: literalItems_def)

lemma compiled_keeps_literal:
  assumes caps: "list_all isCapture (captures ts)" and d: "distinct (captures ts)"
    and s: "sublist (tokensText (map Lit (CHR ''['' # q))) (tokensText ts)"
  shows "\<exists>items. RegExp_new (tokensText ts) = Inr items
           \<and> sublist (literalItems (CHR ''['' # q)) items"
proof -
  let ?Q = "map Lit (CHR ''['' # q)"
  from s have "String_indexOf (tokensText ?Q) (tokensText ts) \<noteq> None"
    by (simp only: String_indexOf_None_iff not_not)
  then have "tokenIndexOf ?Q ts \<noteq> None"
    using tokens_indexOf[OF caps refl refl, of q] by auto
  then obtain i where "tokenIndexOf ?Q ts = Some i" by blast
  from tokenIndexOf_Some[OF this] obtain a b where ts: "ts = a @ ?Q @ b" by blast
  have "concat (map tokenItems ts)
      = concat (map tokenItems a) @ concat (map tokenItems ?Q) @ concat (map tokenItems b)"
    by (subst ts) (simp only: map_append concat_append)
  then have "concat (map tokenItems ts)
      = concat (map tokenItems a) @ literalItems (CHR ''['' # q) @ concat (map tokenItems b)"
    by (simp only: tokenItems_Lit)
  then have "sublist (literalItems (CHR ''['' # q)) (concat (map tokenItems ts))"
    by (metis sublist_appendI)
  with RegExp_new_tokens[OF caps d] show ?thesis by blast
qed

lemma first_pattern_compiled_literal:
  assumes "sublist (tokensText (map Lit (CHR ''['' # q))) (findVariablesRegexString t)"
  shows "\<exists>items. RegExp_new (findVariablesRegexString t) = Inr items
           \<and> sublist (literalItems (CHR ''['' # q)) items"
proof -
  from first_pattern_tokens[of t] obtain ts where
    ts: "findVariablesRegexString t = tokensText ts"
    and caps: "list_all isCapture (captures ts)" and d: "distinct (captures ts)" by blast
  from compiled_keeps_literal[OF caps d] assms show ?thesis unfolding ts by blast
qed

lemma second_pattern_compiled_literal:
  assumes "sublist (tokensText (map Lit (CHR ''['' # q))) (findFilesWithSameVariablesRegexString t nm d)"
  shows "\<exists>items. RegExp_new (findFilesWithSameVariablesRegexString t nm d) = Inr items
           \<and> sublist (literalItems (CHR ''['' # q)) items"
proof -
  from second_pattern_tokens[of t nm d] obtain ts where
    ts: "findFilesWithSameVariablesRegexString t nm d = tokensText ts"
    and caps: "list_all isCapture (captures ts)" and dd: "distinct (captures ts)" by blast
  from compiled_keeps_literal[OF caps dd] assms show ?thesis unfolding ts by blast
qed

lemma placeholder_shape:
  assumes "p = ''hash'' \<or> p = ''name'' \<or> p = ''dir''"
  shows "escapedPlaceholder p = tokensText (map Lit (CHR ''['' # (p @ '']'')))"
  using assms placeholder_tokens by auto

section \<open>A second placeholder stays literal\<close>

text \<open>
  When the naming template holds a placeholder twice, the escaped text of that
  placeholder is still in the string of the first pattern and in the string of the
  second pattern, whatever name and directory were captured, and both patterns compile
  to items that match the placeholder text literally.
\<close>

lemma second_occurrence_survives:
  assumes "p = ''hash'' \<or> p = ''name'' \<or> p = ''dir''"
    and "t = x @ ''['' @ p @ '']'' @ y @ ''['' @ p @ '']'' @ z"
  shows "sublist (escapedPlaceholder p) (findVariablesRegexString t)
       \<and> sublist (escapedPlaceholder p) (findFilesWithSameVariablesRegexString t nm d)
       \<and> (\<exists>items. RegExp_new (findVariablesRegexString t) = Inr items
             \<and> sublist (literalItems (''['' @ p @ '']'')) items)
       \<and> (\<exists>items. RegExp_new (findFilesWithSameVariablesRegexString t nm d) = Inr items
             \<and> sublist (literalItems (''['' @ p @ '']'')) items)"
proof -
  have "t = x @ (''['' @ p @ '']'') @ y @ (''['' @ p @ '']'') @ z"
    using assms(2) by simp
  then have tw: "twice (''['' @ p @ '']'') t" unfolding twice_def by blast
  have a: "sublist (escapedPlaceholder p) (findVariablesRegexString t)"
    using assms(1) tw first_pattern_keeps_hash first_pattern_keeps_name first_pattern_keeps_dir
    by auto
  have b: "sublist (escapedPlaceholder p) (findFilesWithSameVariablesRegexString t nm d)"
    using assms(1) tw second_pattern_keeps_hash second_pattern_keeps_name second_pattern_keeps_dir
    by auto
  have e: "''['' @ p @ '']'' = CHR ''['' # (p @ '']'')" by simp
  from a have "\<exists>items. RegExp_new (findVariablesRegexString t) = Inr items
             \<and> sublist (literalItems (CHR ''['' # (p @ '']''))) items"
    unfolding placeholder_shape[OF assms(1)] by (rule first_pattern_compiled_literal)
  moreover from b have "\<exists>items. RegExp_new (findFilesWithSameVariablesRegexString t nm d) = Inr items
             \<and> sublist (literalItems (CHR ''['' # (p @ '']''))) items"
    unfolding placeholder_shape[OF assms(1)] by (rule second_pattern_compiled_literal)
  ultimately show ?thesis using a b unfolding e by (intro conjI)
qed

section \<open>The three replacements are one pass over the template\<close>

lemma tokenReplace_Cons_skip:
  "\<not> prefix Q (t # ts) \<Longrightarrow> tokenReplace (t # ts) Q g = t # tokenReplace ts Q g"
  by (simp add: tokenReplace_def split: option.splits)

lemma tokenReplace_head: "tokenReplace (Q @ ts) Q g = g # ts"
proof -
  have "tokenIndexOf Q (Q @ ts) = Some 0"
  proof (cases "Q @ ts")
    case Nil
    then show ?thesis by simp
  next
    case (Cons a l)
    then have "prefix Q (a # l)" by (metis prefixI)
    with Cons show ?thesis by simp
  qed
  then show ?thesis by (simp add: tokenReplace_def)
qed

lemma tokenReplace_Nil: "tokenReplace [] (t # Q) g = []"
  by (simp add: tokenReplace_def)

lemma tokenReplace_Grp:
  "tokenReplace (Grp g # ts) (map Lit (c # q)) g' = Grp g # tokenReplace ts (map Lit (c # q)) g'"
  by (rule tokenReplace_Cons_skip) simp

lemma pass_over:
  "tokenReplace (map Lit ''[name]'' @ ts) (map Lit ''[hash]'') g
     = map Lit ''[name]'' @ tokenReplace ts (map Lit ''[hash]'') g"
  "tokenReplace (map Lit ''[dir]'' @ ts) (map Lit ''[hash]'') g
     = map Lit ''[dir]'' @ tokenReplace ts (map Lit ''[hash]'') g"
  "tokenReplace (map Lit ''[dir]'' @ ts) (map Lit ''[name]'') g
     = map Lit ''[dir]'' @ tokenReplace ts (map Lit ''[name]'') g"
  by (simp_all add: tokenReplace_Cons_skip)

lemma prefix_map_Lit: "prefix (map Lit a) (map Lit b) \<longleftrightarrow> prefix a b"
proof (induction a arbitrary: b)
  case Nil
  then show ?case by simp
next
  case (Cons c a)
  then show ?case by (cases b) auto
qed

lemma no_new_prefix:
  assumes "prefix (map Lit q) (tokenReplace ts Q (Grp g))"
  shows "prefix (map Lit q) ts"
proof (cases "tokenIndexOf Q ts")
  case None
  with assms show ?thesis by (simp add: tokenReplace_def)
next
  case (Some i)
  with assms have p: "prefix (map Lit q) (take i ts @ Grp g # drop (i + length Q) ts)"
    by (simp add: tokenReplace_def)
  then consider "prefix (map Lit q) (take i ts)"
    | us where "map Lit q = take i ts @ us" "prefix us (Grp g # drop (i + length Q) ts)"
    unfolding prefix_append by blast
  then show ?thesis
  proof cases
    case 1
    then show ?thesis by (meson prefix_order.trans take_is_prefix)
  next
    case 2
    show ?thesis
    proof (cases us)
      case Nil
      with 2(1) have "map Lit q = take i ts" by simp
      then show ?thesis by (metis take_is_prefix)
    next
      case (Cons u us')
      with 2(2) have "u = Grp g" by simp
      with Cons 2(1) have "Grp g \<in> set (map Lit q)" by simp
      then show ?thesis by auto
    qed
  qed
qed

lemma no_new_prefix_Cons:
  assumes "prefix (map Lit (a # q)) (Lit c # tokenReplace ts Q (Grp g))"
  shows "prefix (map Lit (a # q)) (Lit c # ts)"
  using assms no_new_prefix[of q ts Q g] by simp

lemma tokenReplace_Grp':
  "tokenReplace (Grp g # ts) (Lit c # Q) g' = Grp g # tokenReplace ts (Lit c # Q) g'"
  by (rule tokenReplace_Cons_skip) simp

lemma pass_A:
  "passTokens True n d (map Lit ''[hash]'' @ ts) = Grp HASH_REGEX # passTokens False n d ts"
  using tokenReplace_head[of "map Lit ''[hash]''" ts "Grp HASH_REGEX"]
  by (simp add: passTokens_def tokenReplace_Grp')

lemma pass_B:
  "passTokens h True d (map Lit ''[name]'' @ ts) = Grp NAME_REGEX # passTokens h False d ts"
proof -
  define a0 where "a0 = (if h then tokenReplace ts (map Lit ''[hash]'') (Grp HASH_REGEX) else ts)"
  have a: "(if h then tokenReplace (map Lit ''[name]'' @ ts) (map Lit ''[hash]'') (Grp HASH_REGEX)
            else map Lit ''[name]'' @ ts) = map Lit ''[name]'' @ a0"
    unfolding a0_def using pass_over(1)[of ts "Grp HASH_REGEX"] by simp
  have b: "tokenReplace (map Lit ''[name]'' @ a0) (map Lit ''[name]'') (Grp NAME_REGEX)
            = Grp NAME_REGEX # a0"
    by (rule tokenReplace_head)
  have "passTokens h True d (map Lit ''[name]'' @ ts)
      = (if d then tokenReplace (Grp NAME_REGEX # a0) (map Lit ''[dir]'') (Grp DIR_REGEX)
         else Grp NAME_REGEX # a0)"
    unfolding passTokens_def Let_def a if_True b ..
  also have "\<dots> = Grp NAME_REGEX # passTokens h False d ts"
    unfolding passTokens_def Let_def a0_def by (simp add: tokenReplace_Grp')
  finally show ?thesis .
qed

lemma pass_C:
  "passTokens h n True (map Lit ''[dir]'' @ ts) = Grp DIR_REGEX # passTokens h n False ts"
proof -
  define a0 where "a0 = (if h then tokenReplace ts (map Lit ''[hash]'') (Grp HASH_REGEX) else ts)"
  define b0 where "b0 = (if n then tokenReplace a0 (map Lit ''[name]'') (Grp NAME_REGEX) else a0)"
  have a: "(if h then tokenReplace (map Lit ''[dir]'' @ ts) (map Lit ''[hash]'') (Grp HASH_REGEX)
            else map Lit ''[dir]'' @ ts) = map Lit ''[dir]'' @ a0"
    unfolding a0_def using pass_over(2)[of ts "Grp HASH_REGEX"] by simp
  have b: "(if n then tokenReplace (map Lit ''[dir]'' @ a0) (map Lit ''[name]'') (Grp NAME_REGEX)
            else map Lit ''[dir]'' @ a0) = map Lit ''[dir]'' @ b0"
    unfolding b0_def using pass_over(3)[of a0 "Grp NAME_REGEX"] by simp
  have c: "tokenReplace (map Lit ''[dir]'' @ b0) (map Lit ''[dir]'') (Grp DIR_REGEX)
            = Grp DIR_REGEX # b0"
    by (rule tokenReplace_head)
  have "passTokens h n True (map Lit ''[dir]'' @ ts) = Grp DIR_REGEX # b0"
    unfolding passTokens_def Let_def a b if_True c ..
  also have "b0 = passTokens h n False ts"
    unfolding passTokens_def Let_def a0_def b0_def by simp
  finally show ?thesis .
qed

lemma pass_D:
  assumes h: "h \<longrightarrow> \<not> prefix ''[hash]'' (c # s)"
    and n: "n \<longrightarrow> \<not> prefix ''[name]'' (c # s)"
    and d: "d \<longrightarrow> \<not> prefix ''[dir]'' (c # s)"
  shows "passTokens h n d (Lit c # map Lit s) = Lit c # passTokens h n d (map Lit s)"
proof -
  define a0 where "a0 = (if h then tokenReplace (map Lit s) (map Lit ''[hash]'') (Grp HASH_REGEX)
                         else map Lit s)"
  define b0 where "b0 = (if n then tokenReplace a0 (map Lit ''[name]'') (Grp NAME_REGEX) else a0)"
  have lit: "prefix (map Lit q) (Lit c # map Lit s) \<longleftrightarrow> prefix q (c # s)" for q
    using prefix_map_Lit[of q "c # s"] by simp
  have pa: "prefix (map Lit (x # q)) (Lit c # a0) \<Longrightarrow> prefix (x # q) (c # s)" for x q
    unfolding a0_def using no_new_prefix_Cons[of x q c "map Lit s"] lit[of "x # q"]
    by (auto split: if_splits)
  have pb: "prefix (map Lit (x # q)) (Lit c # b0) \<Longrightarrow> prefix (x # q) (c # s)" for x q
    unfolding b0_def using no_new_prefix_Cons[of x q c a0] pa[of x q]
    by (auto split: if_splits)
  have a: "(if h then tokenReplace (Lit c # map Lit s) (map Lit ''[hash]'') (Grp HASH_REGEX)
            else Lit c # map Lit s) = Lit c # a0"
  proof (cases h)
    case True
    with h have "\<not> prefix (map Lit ''[hash]'') (Lit c # map Lit s)" using lit by blast
    from tokenReplace_Cons_skip[OF this] True show ?thesis by (simp add: a0_def)
  next
    case False
    then show ?thesis by (simp add: a0_def)
  qed
  have b: "(if n then tokenReplace (Lit c # a0) (map Lit ''[name]'') (Grp NAME_REGEX)
            else Lit c # a0) = Lit c # b0"
  proof (cases n)
    case True
    with n have "\<not> prefix (map Lit ''[name]'') (Lit c # a0)" using pa by blast
    from tokenReplace_Cons_skip[OF this] True show ?thesis by (simp add: b0_def)
  next
    case False
    then show ?thesis by (simp add: b0_def)
  qed
  have c: "(if d then tokenReplace (Lit c # b0) (map Lit ''[dir]'') (Grp DIR_REGEX)
            else Lit c # b0)
         = Lit c # (if d then tokenReplace b0 (map Lit ''[dir]'') (Grp DIR_REGEX) else b0)"
  proof (cases d)
    case True
    with d have "\<not> prefix (map Lit ''[dir]'') (Lit c # b0)" using pb by blast
    from tokenReplace_Cons_skip[OF this] True show ?thesis by simp
  next
    case False
    then show ?thesis by simp
  qed
  have "passTokens h n d (Lit c # map Lit s)
      = Lit c # (if d then tokenReplace b0 (map Lit ''[dir]'') (Grp DIR_REGEX) else b0)"
    unfolding passTokens_def Let_def a b c ..
  also have "(if d then tokenReplace b0 (map Lit ''[dir]'') (Grp DIR_REGEX) else b0)
      = passTokens h n d (map Lit s)"
    unfolding passTokens_def Let_def a0_def b0_def ..
  finally show ?thesis .
qed

lemma prefix_split: "prefix p (c # s) \<Longrightarrow> length p = Suc k \<Longrightarrow> c # s = p @ drop k s"
  by (cases p) (auto simp: prefix_def)

lemma pass_is_scan: "tokensText (passTokens h n d (map Lit s)) = Spec_pattern h n d s"
proof (induction h n d s rule: Spec_pattern.induct)
  case (1 h n d)
  show ?case by (simp add: passTokens_def tokenReplace_Nil)
next
  case (2 h n d c s)
  consider (A) "h \<and> prefix ''[hash]'' (c # s)"
    | (B) "\<not> (h \<and> prefix ''[hash]'' (c # s))" "n \<and> prefix ''[name]'' (c # s)"
    | (C) "\<not> (h \<and> prefix ''[hash]'' (c # s))" "\<not> (n \<and> prefix ''[name]'' (c # s))"
          "d \<and> prefix ''[dir]'' (c # s)"
    | (D) "\<not> (h \<and> prefix ''[hash]'' (c # s))" "\<not> (n \<and> prefix ''[name]'' (c # s))"
          "\<not> (d \<and> prefix ''[dir]'' (c # s))"
    by blast
  then show ?case
  proof cases
    case A
    then have e: "c # s = ''[hash]'' @ drop 5 s" using prefix_split[of "''[hash]''" c s 5] by simp
    have "map Lit (c # s) = map Lit ''[hash]'' @ map Lit (drop 5 s)"
      by (subst e) (simp only: map_append)
    then have "passTokens h n d (map Lit (c # s))
        = Grp HASH_REGEX # passTokens False n d (map Lit (drop 5 s))"
      using A pass_A by simp
    then have "tokensText (passTokens h n d (map Lit (c # s)))
        = HASH_REGEX @ Spec_pattern False n d (drop 5 s)"
      using "2.IH"(1)[OF A] by simp
    with A show ?thesis by simp
  next
    case B
    then have e: "c # s = ''[name]'' @ drop 5 s" using prefix_split[of "''[name]''" c s 5] by simp
    have "map Lit (c # s) = map Lit ''[name]'' @ map Lit (drop 5 s)"
      by (subst e) (simp only: map_append)
    then have "passTokens h n d (map Lit (c # s))
        = Grp NAME_REGEX # passTokens h False d (map Lit (drop 5 s))"
      using B pass_B by simp
    then have "tokensText (passTokens h n d (map Lit (c # s)))
        = NAME_REGEX @ Spec_pattern h False d (drop 5 s)"
      using "2.IH"(2)[OF B] by simp
    with B show ?thesis by auto
  next
    case C
    then have e: "c # s = ''[dir]'' @ drop 4 s" using prefix_split[of "''[dir]''" c s 4] by simp
    have "map Lit (c # s) = map Lit ''[dir]'' @ map Lit (drop 4 s)"
      by (subst e) (simp only: map_append)
    then have "passTokens h n d (map Lit (c # s))
        = Grp DIR_REGEX # passTokens h n False (map Lit (drop 4 s))"
      using C pass_C by simp
    then have "tokensText (passTokens h n d (map Lit (c # s)))
        = DIR_REGEX @ Spec_pattern h n False (drop 4 s)"
      using "2.IH"(3)[OF C] by simp
    with C show ?thesis by auto
  next
    case D
    then have "passTokens h n d (Lit c # map Lit s) = Lit c # passTokens h n d (map Lit s)"
      by (intro pass_D) blast+
    then have "tokensText (passTokens h n d (map Lit (c # s)))
        = tokenText (Lit c) @ Spec_pattern h n d s"
      using "2.IH"(4)[OF D] by simp
    with D show ?thesis by auto
  qed
qed

lemma first_pattern_pass:
  "findVariablesRegexString t = tokensText (passTokens True True True (map Lit t))"
proof -
  define Qh where "Qh = map Lit (CHR ''['' # ''hash]'')"
  define Qn where "Qn = map Lit (CHR ''['' # ''name]'')"
  define Qd where "Qd = map Lit (CHR ''['' # ''dir]'')"
  define ts0 where "ts0 = map Lit t"
  define ts1 where "ts1 = tokenReplace ts0 Qh (Grp HASH_REGEX)"
  define ts2 where "ts2 = tokenReplace ts1 Qn (Grp NAME_REGEX)"
  define ts3 where "ts3 = tokenReplace ts2 Qd (Grp DIR_REGEX)"
  have c0: "captures ts0 = []" unfolding ts0_def by (rule captures_Lit)
  have s1: "String_replace (tokensText ts0) (tokensText Qh) HASH_REGEX = tokensText ts1"
    and l1: "list_all isCapture (captures ts1)" and d1: "distinct (captures ts1)"
    and u1: "set (captures ts1) \<subseteq> {HASH_REGEX}"
    unfolding ts1_def
    using replace_step[of ts0 HASH_REGEX Qh "''hash]''"] c0 isCapture_consts Qh_def by simp_all
  have n1: "NAME_REGEX \<notin> set (captures ts1)" using u1 capture_distinct by auto
  have s2: "String_replace (tokensText ts1) (tokensText Qn) NAME_REGEX = tokensText ts2"
    and l2: "list_all isCapture (captures ts2)" and d2: "distinct (captures ts2)"
    and u2: "set (captures ts2) \<subseteq> insert NAME_REGEX (set (captures ts1))"
    unfolding ts2_def
    using replace_step[OF l1 d1 isCapture_consts(3) n1 Qn_def] by blast+
  have n2: "DIR_REGEX \<notin> set (captures ts2)" using u1 u2 capture_distinct by auto
  have s3: "String_replace (tokensText ts2) (tokensText Qd) DIR_REGEX = tokensText ts3"
    unfolding ts3_def
    using replace_step[OF l2 d2 isCapture_consts(1) n2 Qd_def] by blast
  have "findVariablesRegexString t = tokensText ts3"
    unfolding findVariablesRegexString_def placeholder_tokens escapeRegExp_tokens
    using s1 s2 s3 unfolding ts0_def Qh_def Qn_def Qd_def by simp
  moreover have "ts3 = passTokens True True True (map Lit t)"
    unfolding passTokens_def Let_def ts3_def ts2_def ts1_def ts0_def Qh_def Qn_def Qd_def by simp
  ultimately show ?thesis by simp
qed

lemma second_pattern_pass:
  "findFilesWithSameVariablesRegexString t nm d
   = tokensText (passTokens True False False
       (map Lit (String_replace
             (String_replace t ''[name]'' (case nm of None \<Rightarrow> [] | Some n \<Rightarrow> n))
             ''[dir]'' (case d of None \<Rightarrow> [] | Some x \<Rightarrow> x))))"
proof -
  define u where "u = String_replace
             (String_replace t ''[name]'' (case nm of None \<Rightarrow> [] | Some n \<Rightarrow> n))
             ''[dir]'' (case d of None \<Rightarrow> [] | Some x \<Rightarrow> x)"
  define Qh where "Qh = map Lit (CHR ''['' # ''hash]'')"
  define ts0 where "ts0 = map Lit u"
  define ts1 where "ts1 = tokenReplace ts0 Qh (Grp HASH_REGEX)"
  have c0: "captures ts0 = []" unfolding ts0_def by (rule captures_Lit)
  have s1: "String_replace (tokensText ts0) (tokensText Qh) HASH_REGEX = tokensText ts1"
    unfolding ts1_def
    using replace_step[of ts0 HASH_REGEX Qh "''hash]''"] c0 isCapture_consts Qh_def by simp_all
  have "findFilesWithSameVariablesRegexString t nm d = tokensText ts1"
    unfolding findFilesWithSameVariablesRegexString_def placeholder_tokens escapeRegExp_tokens
    using s1 unfolding ts0_def Qh_def u_def by simp
  moreover have "ts1 = passTokens True False False (map Lit u)"
    unfolding passTokens_def Let_def ts1_def ts0_def Qh_def by simp
  ultimately show ?thesis unfolding u_def by simp
qed

lemma first_pattern_scan: "findVariablesRegexString t = Spec_pattern True True True t"
  by (simp only: first_pattern_pass pass_is_scan)

lemma second_pattern_scan:
  "findFilesWithSameVariablesRegexString t nm d
   = Spec_pattern True False False
       (String_replace
          (String_replace t ''[name]'' (case nm of None \<Rightarrow> [] | Some n \<Rightarrow> n))
          ''[dir]'' (case d of None \<Rightarrow> [] | Some x \<Rightarrow> x))"
  by (simp only: second_pattern_pass pass_is_scan)

lemma Spec_pattern_plain:
  "CHR ''['' \<notin> set x \<Longrightarrow> Spec_pattern h n d (x @ s) = escapeRegExp x @ Spec_pattern h n d s"
  by (induction x) (auto simp: escapeRegExp_def)

lemma Spec_pattern_plain_end:
  "CHR ''['' \<notin> set x \<Longrightarrow> Spec_pattern h n d x = escapeRegExp x"
  using Spec_pattern_plain[of x h n d "[]"] by simp

lemma Spec_pattern_first:
  "Spec_pattern True n d (''[hash]'' @ s) = HASH_REGEX @ Spec_pattern False n d s"
  "Spec_pattern h True d (''[name]'' @ s) = NAME_REGEX @ Spec_pattern h False d s"
  "Spec_pattern h n True (''[dir]'' @ s) = DIR_REGEX @ Spec_pattern h n False s"
  by simp_all

lemma Spec_pattern_later:
  "Spec_pattern False n d (''[hash]'' @ s) = escapedPlaceholder ''hash'' @ Spec_pattern False n d s"
  "Spec_pattern h False d (''[name]'' @ s) = escapedPlaceholder ''name'' @ Spec_pattern h False d s"
  "Spec_pattern h n False (''[dir]'' @ s) = escapedPlaceholder ''dir'' @ Spec_pattern h n False s"
  by (simp_all add: escapedPlaceholder_def isSpecial_def isWhiteSpace_def bslash_def)

lemma first_pattern_twice:
  assumes "CHR ''['' \<notin> set x" "CHR ''['' \<notin> set y"
  shows "findVariablesRegexString (x @ ''[hash]'' @ y @ ''[hash]'' @ z)
           = escapeRegExp x @ HASH_REGEX @ escapeRegExp y @ escapedPlaceholder ''hash''
             @ Spec_pattern False True True z"
    and "findVariablesRegexString (x @ ''[name]'' @ y @ ''[name]'' @ z)
           = escapeRegExp x @ NAME_REGEX @ escapeRegExp y @ escapedPlaceholder ''name''
             @ Spec_pattern True False True z"
    and "findVariablesRegexString (x @ ''[dir]'' @ y @ ''[dir]'' @ z)
           = escapeRegExp x @ DIR_REGEX @ escapeRegExp y @ escapedPlaceholder ''dir''
             @ Spec_pattern True True False z"
  unfolding first_pattern_scan
  by (simp_all only: Spec_pattern_plain[OF assms(1)] Spec_pattern_plain[OF assms(2)]
        Spec_pattern_first Spec_pattern_later)

lemma indexOf_plain:
  assumes "CHR ''['' \<notin> set x"
  shows "String_indexOf (CHR ''['' # q) (x @ r)
       = map_option (\<lambda>i. i + length x) (String_indexOf (CHR ''['' # q) r)"
proof (rule String_indexOf_skip, intro allI impI)
  fix k assume k: "k < length x"
  then obtain a rest where d: "drop k x = a # rest" by (cases "drop k x") auto
  then have "a \<in> set x" by (metis in_set_dropD list.set_intros(1))
  with assms have "a \<noteq> CHR ''[''" by auto
  with d show "\<not> prefix (CHR ''['' # q) (drop k x @ r)" by simp
qed

lemma absent_plain:
  "CHR ''['' \<notin> set x \<Longrightarrow> String_indexOf (CHR ''['' # q) r = None
   \<Longrightarrow> String_indexOf (CHR ''['' # q) (x @ r) = None"
  by (simp add: indexOf_plain)

lemma absent_chunk:
  "String_indexOf ''[name]'' r = None \<Longrightarrow> String_indexOf ''[name]'' (''[hash]'' @ r) = None"
  "String_indexOf ''[dir]'' r = None \<Longrightarrow> String_indexOf ''[dir]'' (''[hash]'' @ r) = None"
  "String_indexOf ''[dir]'' r = None \<Longrightarrow> String_indexOf ''[dir]'' (''[name]'' @ r) = None"
  "String_indexOf ''[name]'' r = None \<Longrightarrow> String_indexOf ''[name]'' (''[dir]'' @ r) = None"
  by simp_all

lemma absent_end:
  "CHR ''['' \<notin> set z \<Longrightarrow> String_indexOf (CHR ''['' # q) z = None"
  using absent_plain[of z q "[]"] by simp

lemma String_replace_none: "String_indexOf P w = None \<Longrightarrow> String_replace w P v = w"
  by (simp add: String_replace_def)

lemma first_of_plain:
  assumes "CHR ''['' \<notin> set x" "CHR ''$'' \<notin> set v"
  shows "String_replace (x @ ''[name]'' @ r) ''[name]'' v = x @ v @ r"
    and "String_replace (x @ ''[dir]'' @ r) ''[dir]'' v = x @ v @ r"
proof -
  have "String_indexOf ''[name]'' (x @ ''[name'') = None"
    by (rule absent_plain[OF assms(1)]) simp
  then have n: "\<not> sublist ''[name]'' (x @ butlast ''[name]'')"
    by (simp add: String_indexOf_None_iff)
  show "String_replace (x @ ''[name]'' @ r) ''[name]'' v = x @ v @ r"
    by (rule String_replace_first[OF _ n assms(2)]) simp
  have "String_indexOf ''[dir]'' (x @ ''[dir'') = None"
    by (rule absent_plain[OF assms(1)]) simp
  then have d: "\<not> sublist ''[dir]'' (x @ butlast ''[dir]'')"
    by (simp add: String_indexOf_None_iff)
  show "String_replace (x @ ''[dir]'' @ r) ''[dir]'' v = x @ v @ r"
    by (rule String_replace_first[OF _ d assms(2)]) simp
qed

lemma second_pattern_twice_hash:
  assumes "CHR ''['' \<notin> set x" "CHR ''['' \<notin> set y" "CHR ''['' \<notin> set z"
  shows "findFilesWithSameVariablesRegexString (x @ ''[hash]'' @ y @ ''[hash]'' @ z) nm d
       = escapeRegExp x @ HASH_REGEX @ escapeRegExp y @ escapedPlaceholder ''hash'' @ escapeRegExp z"
proof -
  let ?t = "x @ ''[hash]'' @ y @ ''[hash]'' @ z"
  have n: "String_indexOf ''[name]'' ?t = None"
    by (intro absent_plain[OF assms(1)] absent_chunk(1) absent_plain[OF assms(2)]
          absent_end[OF assms(3)])
  have d: "String_indexOf ''[dir]'' ?t = None"
    by (intro absent_plain[OF assms(1)] absent_chunk(2) absent_plain[OF assms(2)]
          absent_end[OF assms(3)])
  have "String_replace (String_replace ?t ''[name]'' a) ''[dir]'' b = ?t" for a b
    by (simp only: String_replace_none[OF n] String_replace_none[OF d])
  then show ?thesis
    unfolding second_pattern_scan
    by (simp only: Spec_pattern_plain[OF assms(1)] Spec_pattern_plain[OF assms(2)]
          Spec_pattern_plain_end[OF assms(3)] Spec_pattern_first Spec_pattern_later)
qed

lemma second_pattern_twice_name:
  assumes "CHR ''['' \<notin> set x" "CHR ''['' \<notin> set y" "CHR ''['' \<notin> set z"
    and "CHR ''['' \<notin> set v" "CHR ''$'' \<notin> set v"
  shows "findFilesWithSameVariablesRegexString (x @ ''[name]'' @ y @ ''[name]'' @ z) (Some v) d
       = escapeRegExp x @ escapeRegExp v @ escapeRegExp y @ escapedPlaceholder ''name''
         @ escapeRegExp z"
proof -
  let ?t = "x @ ''[name]'' @ y @ ''[name]'' @ z"
  let ?u = "x @ v @ y @ ''[name]'' @ z"
  have a: "String_replace ?t ''[name]'' v = ?u"
    by (rule first_of_plain(1)[OF assms(1,5)])
  have "String_indexOf ''[dir]'' ?u = None"
    by (intro absent_plain[OF assms(1)] absent_plain[OF assms(4)] absent_plain[OF assms(2)]
          absent_chunk(3) absent_end[OF assms(3)])
  then have b: "String_replace ?u ''[dir]'' w = ?u" for w
    by (rule String_replace_none)
  show ?thesis
    unfolding second_pattern_scan option.case a b
    by (simp only: Spec_pattern_plain[OF assms(1)] Spec_pattern_plain[OF assms(4)]
          Spec_pattern_plain[OF assms(2)] Spec_pattern_plain_end[OF assms(3)]
          Spec_pattern_later)
qed

lemma second_pattern_twice_dir:
  assumes "CHR ''['' \<notin> set x" "CHR ''['' \<notin> set y" "CHR ''['' \<notin> set z"
    and "CHR ''['' \<notin> set v" "CHR ''$'' \<notin> set v"
  shows "findFilesWithSameVariablesRegexString (x @ ''[dir]'' @ y @ ''[dir]'' @ z) nm (Some v)
       = escapeRegExp x @ escapeRegExp v @ escapeRegExp y @ escapedPlaceholder ''dir''
         @ escapeRegExp z"
proof -
  let ?t = "x @ ''[dir]'' @ y @ ''[dir]'' @ z"
  let ?u = "x @ v @ y @ ''[dir]'' @ z"
  have "String_indexOf ''[name]'' ?t = None"
    by (intro absent_plain[OF assms(1)] absent_chunk(4) absent_plain[OF assms(2)]
          absent_end[OF assms(3)])
  then have a: "String_replace ?t ''[name]'' w = ?t" for w
    by (rule String_replace_none)
  have b: "String_replace ?t ''[dir]'' v = ?u"
    by (rule first_of_plain(2)[OF assms(1,5)])
  show ?thesis
    unfolding second_pattern_scan option.case a b
    by (simp only: Spec_pattern_plain[OF assms(1)] Spec_pattern_plain[OF assms(4)]
          Spec_pattern_plain[OF assms(2)] Spec_pattern_plain_end[OF assms(3)]
          Spec_pattern_later)
qed

section \<open>Which occurrence of a placeholder is replaced\<close>

text \<open>
  Claim C9: each of the placeholders \<^verbatim>\<open>[hash]\<close>, \<^verbatim>\<open>[name]\<close> and \<^verbatim>\<open>[dir]\<close> is replaced
  at its first occurrence only. For every naming template the string of the first pattern
  is the one pass over the template that replaces each placeholder where it is first met
  and escapes everything else; the string of the second pattern is that pass, for
  \<^verbatim>\<open>[hash]\<close> alone, over the template with the captured name and directory put in place
  of the first \<^verbatim>\<open>[name]\<close> and the first \<^verbatim>\<open>[dir]\<close>. When a template holds a placeholder
  twice and no other opening bracket up to the second occurrence, the first occurrence
  becomes the capture pattern and the second occurrence is the escaped placeholder. In
  the second pattern, for a template with no other opening bracket at all and a captured
  text without opening bracket and dollar sign, the first occurrence becomes the
  captured text, escaped, and the second occurrence is the escaped placeholder. In every template that holds a placeholder
  twice the escaped placeholder is still in both pattern strings, and both patterns
  compile to items that match the placeholder text literally.
\<close>

theorem only_first_placeholder_replaced:
  "findVariablesRegexString t = Spec_pattern True True True t
   \<and> findFilesWithSameVariablesRegexString t nm d
       = Spec_pattern True False False
           (String_replace
              (String_replace t ''[name]'' (case nm of None \<Rightarrow> [] | Some n \<Rightarrow> n))
              ''[dir]'' (case d of None \<Rightarrow> [] | Some x \<Rightarrow> x))
   \<and> (CHR ''['' \<notin> set x \<and> CHR ''['' \<notin> set y \<longrightarrow>
         findVariablesRegexString (x @ ''[hash]'' @ y @ ''[hash]'' @ z)
           = escapeRegExp x @ HASH_REGEX @ escapeRegExp y @ escapedPlaceholder ''hash''
             @ Spec_pattern False True True z
       \<and> findVariablesRegexString (x @ ''[name]'' @ y @ ''[name]'' @ z)
           = escapeRegExp x @ NAME_REGEX @ escapeRegExp y @ escapedPlaceholder ''name''
             @ Spec_pattern True False True z
       \<and> findVariablesRegexString (x @ ''[dir]'' @ y @ ''[dir]'' @ z)
           = escapeRegExp x @ DIR_REGEX @ escapeRegExp y @ escapedPlaceholder ''dir''
             @ Spec_pattern True True False z)
   \<and> (CHR ''['' \<notin> set x \<and> CHR ''['' \<notin> set y \<and> CHR ''['' \<notin> set z \<longrightarrow>
         findFilesWithSameVariablesRegexString (x @ ''[hash]'' @ y @ ''[hash]'' @ z) nm d
           = escapeRegExp x @ HASH_REGEX @ escapeRegExp y @ escapedPlaceholder ''hash''
             @ escapeRegExp z
       \<and> (CHR ''['' \<notin> set v \<and> CHR ''$'' \<notin> set v \<longrightarrow>
             findFilesWithSameVariablesRegexString (x @ ''[name]'' @ y @ ''[name]'' @ z) (Some v) d
               = escapeRegExp x @ escapeRegExp v @ escapeRegExp y @ escapedPlaceholder ''name''
                 @ escapeRegExp z
           \<and> findFilesWithSameVariablesRegexString (x @ ''[dir]'' @ y @ ''[dir]'' @ z) nm (Some v)
               = escapeRegExp x @ escapeRegExp v @ escapeRegExp y @ escapedPlaceholder ''dir''
                 @ escapeRegExp z))
   \<and> ((p = ''hash'' \<or> p = ''name'' \<or> p = ''dir'')
        \<and> t = x @ ''['' @ p @ '']'' @ y @ ''['' @ p @ '']'' @ z \<longrightarrow>
         sublist (escapedPlaceholder p) (findVariablesRegexString t)
       \<and> sublist (escapedPlaceholder p) (findFilesWithSameVariablesRegexString t nm d)
       \<and> (\<exists>items. RegExp_new (findVariablesRegexString t) = Inr items
             \<and> sublist (literalItems (''['' @ p @ '']'')) items)
       \<and> (\<exists>items. RegExp_new (findFilesWithSameVariablesRegexString t nm d) = Inr items
             \<and> sublist (literalItems (''['' @ p @ '']'')) items))"
proof (intro conjI impI)
  show "findVariablesRegexString t = Spec_pattern True True True t"
    by (rule first_pattern_scan)
  show "findFilesWithSameVariablesRegexString t nm d
       = Spec_pattern True False False
           (String_replace
              (String_replace t ''[name]'' (case nm of None \<Rightarrow> [] | Some n \<Rightarrow> n))
              ''[dir]'' (case d of None \<Rightarrow> [] | Some x \<Rightarrow> x))"
    by (rule second_pattern_scan)
next
  assume a: "CHR ''['' \<notin> set x \<and> CHR ''['' \<notin> set y"
  then have x: "CHR ''['' \<notin> set x" and y: "CHR ''['' \<notin> set y" by simp_all
  show "findVariablesRegexString (x @ ''[hash]'' @ y @ ''[hash]'' @ z)
           = escapeRegExp x @ HASH_REGEX @ escapeRegExp y @ escapedPlaceholder ''hash''
             @ Spec_pattern False True True z"
    by (rule first_pattern_twice(1)[OF x y])
  show "findVariablesRegexString (x @ ''[name]'' @ y @ ''[name]'' @ z)
           = escapeRegExp x @ NAME_REGEX @ escapeRegExp y @ escapedPlaceholder ''name''
             @ Spec_pattern True False True z"
    by (rule first_pattern_twice(2)[OF x y])
  show "findVariablesRegexString (x @ ''[dir]'' @ y @ ''[dir]'' @ z)
           = escapeRegExp x @ DIR_REGEX @ escapeRegExp y @ escapedPlaceholder ''dir''
             @ Spec_pattern True True False z"
    by (rule first_pattern_twice(3)[OF x y])
next
  assume a: "CHR ''['' \<notin> set x \<and> CHR ''['' \<notin> set y \<and> CHR ''['' \<notin> set z"
  then have x: "CHR ''['' \<notin> set x" and y: "CHR ''['' \<notin> set y" and z: "CHR ''['' \<notin> set z"
    by simp_all
  show "findFilesWithSameVariablesRegexString (x @ ''[hash]'' @ y @ ''[hash]'' @ z) nm d
           = escapeRegExp x @ HASH_REGEX @ escapeRegExp y @ escapedPlaceholder ''hash''
             @ escapeRegExp z"
    by (rule second_pattern_twice_hash[OF x y z])
  assume b: "CHR ''['' \<notin> set v \<and> CHR ''$'' \<notin> set v"
  then have v: "CHR ''['' \<notin> set v" "CHR ''$'' \<notin> set v" by simp_all
  show "findFilesWithSameVariablesRegexString (x @ ''[name]'' @ y @ ''[name]'' @ z) (Some v) d
               = escapeRegExp x @ escapeRegExp v @ escapeRegExp y @ escapedPlaceholder ''name''
                 @ escapeRegExp z"
    by (rule second_pattern_twice_name[OF x y z v])
  show "findFilesWithSameVariablesRegexString (x @ ''[dir]'' @ y @ ''[dir]'' @ z) nm (Some v)
               = escapeRegExp x @ escapeRegExp v @ escapeRegExp y @ escapedPlaceholder ''dir''
                 @ escapeRegExp z"
    by (rule second_pattern_twice_dir[OF x y z v])
next
  assume a: "(p = ''hash'' \<or> p = ''name'' \<or> p = ''dir'')
        \<and> t = x @ ''['' @ p @ '']'' @ y @ ''['' @ p @ '']'' @ z"
  then have p: "p = ''hash'' \<or> p = ''name'' \<or> p = ''dir''"
    and t: "t = x @ ''['' @ p @ '']'' @ y @ ''['' @ p @ '']'' @ z" by simp_all
  note s = second_occurrence_survives[OF p t, of nm d]
  show "sublist (escapedPlaceholder p) (findVariablesRegexString t)"
    using s by (rule conjunct1)
  show "sublist (escapedPlaceholder p) (findFilesWithSameVariablesRegexString t nm d)"
    using s by (rule conjunct2[THEN conjunct1])
  show "\<exists>items. RegExp_new (findVariablesRegexString t) = Inr items
             \<and> sublist (literalItems (''['' @ p @ '']'')) items"
    using s by (rule conjunct2[THEN conjunct2, THEN conjunct1])
  show "\<exists>items. RegExp_new (findFilesWithSameVariablesRegexString t nm d) = Inr items
             \<and> sublist (literalItems (''['' @ p @ '']'')) items"
    using s by (rule conjunct2[THEN conjunct2, THEN conjunct2])
qed

text \<open>The theorem at templates that hold a placeholder twice.\<close>

theorem only_first_placeholder_replaced_witness:
  "findVariablesRegexString ''a/[name]-[name].js''
     = ''a/'' @ NAME_REGEX @ [bslash] @ ''-'' @ escapedPlaceholder ''name'' @ [bslash] @ ''.js''
   \<and> findFilesWithSameVariablesRegexString ''a/[name]-[name].js'' (Some ''app'') None
     = ''a/app'' @ [bslash] @ ''-'' @ escapedPlaceholder ''name'' @ [bslash] @ ''.js''
   \<and> findFilesWithSameVariablesRegexString ''a/[hash]-[hash].js'' (Some ''app'') None
     = ''a/'' @ HASH_REGEX @ [bslash] @ ''-'' @ escapedPlaceholder ''hash'' @ [bslash] @ ''.js''
   \<and> findFilesWithSameVariablesRegexString ''a/[dir]-[dir].js'' (Some ''app'') (Some ''app'')
     = ''a/app'' @ [bslash] @ ''-'' @ escapedPlaceholder ''dir'' @ [bslash] @ ''.js''
   \<and> findVariablesRegexString ''a/[name]-[name].js''
     = Spec_pattern True True True ''a/[name]-[name].js''
   \<and> findFilesWithSameVariablesRegexString ''a/[name]-[name].js'' (Some ''app'') None
     = Spec_pattern True False False ''a/app-[name].js''
   \<and> sublist (escapedPlaceholder ''name'')
        (findFilesWithSameVariablesRegexString ''a/[name]-[name].js'' (Some ''app'') None)
   \<and> (\<exists>items. RegExp_new (findFilesWithSameVariablesRegexString ''a/[name]-[name].js'' (Some ''app'') None)
           = Inr items
         \<and> sublist (literalItems ''[name]'') items)"
proof -
  note th = only_first_placeholder_replaced[where t = "''a/[name]-[name].js''"
      and nm = "Some ''app''" and d = None and x = "''a/''" and y = "''-''" and z = "''.js''"
      and v = "''app''" and p = "''name''"]
  note th' = only_first_placeholder_replaced[where t = "''a/[name]-[name].js''"
      and nm = "Some ''app''" and d = "Some ''app''" and x = "''a/''" and y = "''-''" and z = "''.js''"
      and v = "''app''" and p = "''name''"]
  have e: "escapeRegExp ''a/'' = ''a/''" "escapeRegExp ''-'' = [bslash] @ ''-''"
    "escapeRegExp ''.js'' = [bslash] @ ''.js''" "escapeRegExp ''app'' = ''app''"
    "Spec_pattern True False True ''.js'' = [bslash] @ ''.js''"
    by code_simp+
  have r: "String_replace (String_replace ''a/[name]-[name].js'' ''[name]'' ''app'') ''[dir]'' []
             = ''a/app-[name].js''"
    by code_simp
  have c1: "findVariablesRegexString ''a/[name]-[name].js''
     = Spec_pattern True True True ''a/[name]-[name].js''"
    using th by (rule conjunct1)
  have c2: "findFilesWithSameVariablesRegexString ''a/[name]-[name].js'' (Some ''app'') None
     = Spec_pattern True False False ''a/app-[name].js''"
    using th[THEN conjunct2, THEN conjunct1] r by simp
  have c3: "findVariablesRegexString ''a/[name]-[name].js''
     = ''a/'' @ NAME_REGEX @ [bslash] @ ''-'' @ escapedPlaceholder ''name'' @ [bslash] @ ''.js''"
    using th[THEN conjunct2, THEN conjunct2, THEN conjunct1] e
    by (simp del: Spec_pattern.simps)
  note c4 = th[THEN conjunct2, THEN conjunct2, THEN conjunct2, THEN conjunct1]
  have c4a: "findFilesWithSameVariablesRegexString ''a/[hash]-[hash].js'' (Some ''app'') None
     = ''a/'' @ HASH_REGEX @ [bslash] @ ''-'' @ escapedPlaceholder ''hash'' @ [bslash] @ ''.js''"
    using c4 e by (simp del: Spec_pattern.simps)
  have c4b: "findFilesWithSameVariablesRegexString ''a/[name]-[name].js'' (Some ''app'') None
     = ''a/app'' @ [bslash] @ ''-'' @ escapedPlaceholder ''name'' @ [bslash] @ ''.js''"
    using c4 e by (simp del: Spec_pattern.simps)
  have c4c: "findFilesWithSameVariablesRegexString ''a/[dir]-[dir].js'' (Some ''app'') (Some ''app'')
     = ''a/app'' @ [bslash] @ ''-'' @ escapedPlaceholder ''dir'' @ [bslash] @ ''.js''"
    using th'[THEN conjunct2, THEN conjunct2, THEN conjunct2, THEN conjunct1] e
    by (simp del: Spec_pattern.simps)
  note c5 = th[THEN conjunct2, THEN conjunct2, THEN conjunct2, THEN conjunct2]
  have c5': "sublist (escapedPlaceholder ''name'')
        (findFilesWithSameVariablesRegexString ''a/[name]-[name].js'' (Some ''app'') None)
     \<and> (\<exists>items. RegExp_new (findFilesWithSameVariablesRegexString ''a/[name]-[name].js'' (Some ''app'') None)
           = Inr items
         \<and> sublist (literalItems ''[name]'') items)"
    using c5 by simp
  show ?thesis
    using c3 c4b c4a c4c c1 c2 c5' by (intro conjI) simp_all
qed

section \<open>An entry output that does not fit the naming template\<close>

text \<open>
  Claim C10: with a naming template set, both patterns always compile. When the first
  pattern does not match the joined directory and name of the entry output, nothing
  is raised: the name and the directory count as empty, the second pattern is built
  from the template with both placeholders removed, and the result is every output
  whose path that pattern matches.
\<close>

theorem unmatched_anchor_searches_with_empty_captures:
  assumes "t \<noteq> []"
  shows "\<exists>re re2.
           RegExp_new (findVariablesRegexString t) = Inr re
         \<and> RegExp_new (findFilesWithSameVariablesRegexString t None None) = Inr re2
         \<and> findFilesWithSameVariablesRegexString t None None
             = String_replace
                 (escapeRegExp (String_replace (String_replace t ''[name]'' []) ''[dir]'' []))
                 (escapedPlaceholder ''hash'') HASH_REGEX
         \<and> (RegExp_exec re (posixJoin [dir (path_parse (path e)), name (path_parse (path e))]) = None
              \<longrightarrow> findNameRelatedOutputFiles e mf (Some t)
                    = Inr (map flatten (filter (\<lambda>(p, v). RegExp_test re2 p) (outputsOf mf))))"
proof -
  obtain re where re: "RegExp_new (findVariablesRegexString t) = Inr re"
    using first_pattern_compiles by blast
  obtain re2 where re2: "RegExp_new (findFilesWithSameVariablesRegexString t None None) = Inr re2"
    using second_pattern_compiles by blast
  have s: "findFilesWithSameVariablesRegexString t None None
             = String_replace
                 (escapeRegExp (String_replace (String_replace t ''[name]'' []) ''[dir]'' []))
                 (escapedPlaceholder ''hash'') HASH_REGEX"
    by (simp add: findFilesWithSameVariablesRegexString_def)
  have "findNameRelatedOutputFiles e mf (Some t)
          = Inr (map flatten (filter (\<lambda>(p, v). RegExp_test re2 p) (outputsOf mf)))"
    if n: "RegExp_exec re (posixJoin [dir (path_parse (path e)), name (path_parse (path e))]) = None"
  proof -
    have f: "filterE (\<lambda>(p, v). case RegExp_new (findFilesWithSameVariablesRegexString t None None) of
                 Inl err \<Rightarrow> Inl err | Inr r \<Rightarrow> Inr (RegExp_test r p)) (outputsOf mf)
           = Inr (filter (\<lambda>(p, v). RegExp_test re2 p) (outputsOf mf))"
      by (rule filterE_total) (simp add: re2 split: prod.splits)
    show ?thesis
      using assms by (simp add: findNameRelatedOutputFiles_def Let_def re n f)
  qed
  then have "RegExp_exec re (posixJoin [dir (path_parse (path e)), name (path_parse (path e))]) = None
      \<longrightarrow> findNameRelatedOutputFiles e mf (Some t)
            = Inr (map flatten (filter (\<lambda>(p, v). RegExp_test re2 p) (outputsOf mf)))"
    by (rule impI)
  with re re2 s show ?thesis
    by (intro exI[of _ re] exI[of _ re2] conjI)
qed

text \<open>
  The theorem at an entry output without directory and hash: the degenerate pattern
  \<^verbatim>\<open>/-\<close> followed by a hash still finds an output.
\<close>

theorem unmatched_anchor_searches_with_empty_captures_witness:
  "findNameRelatedOutputFiles (plainFile ''app.js'')
     (Some [(''assets/-ABCDEFGH.js'', otherOutput), (''app.css'', otherOutput)])
     (Some ''[dir]/[name]-[hash]'')
   = Inr [plainFile ''assets/-ABCDEFGH.js'']"
proof -
  let ?t = "''[dir]/[name]-[hash]''"
  let ?mf = "Some [(''assets/-ABCDEFGH.js'', otherOutput), (''app.css'', otherOutput)]"
  have t: "?t \<noteq> []" by simp
  from unmatched_anchor_searches_with_empty_captures[OF t, of "plainFile ''app.js''" ?mf]
  obtain re where "\<exists>re2.
      RegExp_new (findVariablesRegexString ?t) = Inr re
    \<and> RegExp_new (findFilesWithSameVariablesRegexString ?t None None) = Inr re2
    \<and> findFilesWithSameVariablesRegexString ?t None None
        = String_replace
            (escapeRegExp (String_replace (String_replace ?t ''[name]'' []) ''[dir]'' []))
            (escapedPlaceholder ''hash'') HASH_REGEX
    \<and> (RegExp_exec re (posixJoin [dir (path_parse (path (plainFile ''app.js''))),
                                    name (path_parse (path (plainFile ''app.js'')))]) = None
          \<longrightarrow> findNameRelatedOutputFiles (plainFile ''app.js'') ?mf (Some ?t)
                = Inr (map flatten (filter (\<lambda>(p, v). RegExp_test re2 p) (outputsOf ?mf))))"
    by (rule exE)
  then obtain re2 where all:
     "RegExp_new (findVariablesRegexString ?t) = Inr re
    \<and> RegExp_new (findFilesWithSameVariablesRegexString ?t None None) = Inr re2
    \<and> findFilesWithSameVariablesRegexString ?t None None
        = String_replace
            (escapeRegExp (String_replace (String_replace ?t ''[name]'' []) ''[dir]'' []))
            (escapedPlaceholder ''hash'') HASH_REGEX
    \<and> (RegExp_exec re (posixJoin [dir (path_parse (path (plainFile ''app.js''))),
                                    name (path_parse (path (plainFile ''app.js'')))]) = None
          \<longrightarrow> findNameRelatedOutputFiles (plainFile ''app.js'') ?mf (Some ?t)
                = Inr (map flatten (filter (\<lambda>(p, v). RegExp_test re2 p) (outputsOf ?mf))))"
    by (rule exE)
  from all have re: "RegExp_new (findVariablesRegexString ?t) = Inr re"
    by (rule conjunct1)
  from all have re2: "RegExp_new (findFilesWithSameVariablesRegexString ?t None None) = Inr re2"
    by (rule conjunct2[THEN conjunct1])
  from all have imp: "RegExp_exec re (posixJoin [dir (path_parse (path (plainFile ''app.js''))),
                                        name (path_parse (path (plainFile ''app.js'')))]) = None
              \<longrightarrow> findNameRelatedOutputFiles (plainFile ''app.js'') ?mf (Some ?t)
                    = Inr (map flatten (filter (\<lambda>(p, v). RegExp_test re2 p) (outputsOf ?mf)))"
    by (rule conjunct2[THEN conjunct2, THEN conjunct2])
  have n: "map_sum id (\<lambda>r. RegExp_exec r (posixJoin [dir (path_parse (path (plainFile ''app.js''))),
                                        name (path_parse (path (plainFile ''app.js'')))]))
             (RegExp_new (findVariablesRegexString ?t)) = Inr None"
    by code_simp
  have m: "map_sum id (\<lambda>r. map flatten (filter (\<lambda>(p, v). RegExp_test r p) (outputsOf ?mf)))
             (RegExp_new (findFilesWithSameVariablesRegexString ?t None None))
           = Inr [plainFile ''assets/-ABCDEFGH.js'']"
    by code_simp
  from n re have "RegExp_exec re (posixJoin [dir (path_parse (path (plainFile ''app.js''))),
                                        name (path_parse (path (plainFile ''app.js'')))]) = None"
    by simp
  with imp have "findNameRelatedOutputFiles (plainFile ''app.js'') ?mf (Some ?t)
                    = Inr (map flatten (filter (\<lambda>(p, v). RegExp_test re2 p) (outputsOf ?mf)))"
    by (rule mp)
  with m re2 show ?thesis by simp
qed

section \<open>Related files under a naming template\<close>

lemma firstSome_single: "firstSome [x] = x"
  by (cases x) simp_all

lemma matchItems_char:
  "matchItems (Single (AChar c) QOne # items) inp pos opens groups
   = (if prefix [c] (drop pos inp) then matchItems items inp (pos + 1) opens groups else None)"
proof (cases "drop pos inp")
  case Nil
  then show ?thesis by simp
next
  case (Cons d rest)
  show ?thesis
  proof (cases "d = c")
    case True
    have "0 < length (takeWhile (\<lambda>x. x = c) (d # rest))" using True by simp
    then have "min 1 (length (takeWhile (\<lambda>x. x = c) (d # rest))) = 1" by linarith
    moreover have "atomMatches (AChar c) = (\<lambda>x. x = c)" by (rule ext) simp
    ultimately show ?thesis using Cons True by (simp add: Let_def firstSome_single)
  next
    case False
    moreover have "atomMatches (AChar c) = (\<lambda>x. x = c)" by (rule ext) simp
    ultimately show ?thesis using Cons by (simp add: Let_def)
  qed
qed

lemma matchItems_literal:
  "matchItems (literalItems lit @ items) inp pos opens groups
   = (if prefix lit (drop pos inp) then matchItems items inp (pos + length lit) opens groups
      else None)"
proof (induction lit arbitrary: pos)
  case Nil
  then show ?case by (simp add: literalItems_def)
next
  case (Cons c lit)
  have l: "literalItems (c # lit) @ items = Single (AChar c) QOne # (literalItems lit @ items)"
    by (simp add: literalItems_def)
  show ?case
  proof (cases "drop pos inp")
    case Nil
    then show ?thesis unfolding l matchItems_char by simp
  next
    case d: (Cons d rest)
    then have r: "drop (pos + 1) inp = rest"
      by (metis Suc_eq_plus1 drop_Suc drop_tl list.sel(3) tl_drop)
    show ?thesis
      unfolding l matchItems_char using Cons.IH[of "pos + 1"] d r by (simp add: ac_simps)
  qed
qed

lemma takeWhile_length_ge:
  "n \<le> length (takeWhile P s) \<longleftrightarrow> length (take n s) = n \<and> list_all P (take n s)"
proof (induction s arbitrary: n)
  case Nil
  then show ?case by auto
next
  case (Cons c s)
  then show ?case by (cases n) auto
qed

lemma hash_atom: 
  "atomMatches (AClass False [ClassRange CHR ''A'' CHR ''Z'', ClassRange CHR ''2'' CHR ''7'']) = isHashChar"
  by (rule ext) (simp add: isHashChar_def)

lemma matchItems_hashGroup:
  "matchItems hashGroup inp pos [] groups
   = (if length (take 8 (drop pos inp)) = 8 \<and> list_all isHashChar (take 8 (drop pos inp))
      then Some (pos + 8, (''hash'', take 8 (drop pos inp)) # groups) else None)"
proof -
  let ?a = "length (takeWhile isHashChar (drop pos inp))"
  have g: "(8 \<le> ?a) = (length (take 8 (drop pos inp)) = 8 \<and> list_all isHashChar (take 8 (drop pos inp)))"
    by (rule takeWhile_length_ge)
  show ?thesis
  proof (cases "8 \<le> ?a")
    case True
    then have "min 8 ?a = 8" by simp
    with True g show ?thesis
      by (simp add: hashGroup_def hash_atom Let_def firstSome_single del: takeWhile_length_ge)
  next
    case False
    then have "min 8 ?a < 8" by simp
    with False g show ?thesis
      by (simp add: hashGroup_def hash_atom Let_def)
  qed
qed

lemma matchItems_hashed:
  "matchItems (literalItems lit @ hashGroup) s 0 [] [] \<noteq> None \<longleftrightarrow> Spec_hashedAt lit s"
  by (simp add: matchItems_literal matchItems_hashGroup Spec_hashedAt_def)

lemma RegExp_test_hashed:
  "RegExp_test (literalItems lit @ hashGroup) p = Spec_hashedSomewhere lit p"
proof (induction p)
  case Nil
  show ?case using matchItems_hashed[of lit "[]"] by (simp add: RegExp_test_def)
next
  case (Cons c p)
  show ?case
    using matchItems_hashed[of lit "c # p"] Cons.IH
    by (cases "matchItems (literalItems lit @ hashGroup) (c # p) 0 [] []")
       (simp_all add: RegExp_test_def)
qed

lemma Spec_hashedAt_iff:
  "Spec_hashedAt lit s \<longleftrightarrow>
     (\<exists>h post. s = lit @ h @ post \<and> length h = 8 \<and> list_all isHashChar h)"
proof
  assume a: "Spec_hashedAt lit s"
  then obtain r where r: "s = lit @ r" by (auto simp: Spec_hashedAt_def prefix_def)
  with a have "length (take 8 r) = 8" "list_all isHashChar (take 8 r)"
    by (simp_all add: Spec_hashedAt_def)
  moreover have "s = lit @ take 8 r @ drop 8 r" using r by simp
  ultimately show "\<exists>h post. s = lit @ h @ post \<and> length h = 8 \<and> list_all isHashChar h" by blast
next
  assume "\<exists>h post. s = lit @ h @ post \<and> length h = 8 \<and> list_all isHashChar h"
  then show "Spec_hashedAt lit s" by (auto simp: Spec_hashedAt_def)
qed

lemma Spec_hashedSomewhere_iff:
  "Spec_hashedSomewhere lit p \<longleftrightarrow>
     (\<exists>pre h post. p = pre @ lit @ h @ post \<and> length h = 8 \<and> list_all isHashChar h)"
proof (induction p)
  case Nil
  show ?case by (auto simp: Spec_hashedAt_iff)
next
  case (Cons c p)
  show ?case
  proof
    assume "Spec_hashedSomewhere lit (c # p)"
    then consider "Spec_hashedAt lit (c # p)" | "Spec_hashedSomewhere lit p" by auto
    then show "\<exists>pre h post. c # p = pre @ lit @ h @ post \<and> length h = 8 \<and> list_all isHashChar h"
    proof cases
      case 1
      then obtain h post where "c # p = [] @ lit @ h @ post" "length h = 8" "list_all isHashChar h"
        unfolding Spec_hashedAt_iff by auto
      then show ?thesis by blast
    next
      case 2
      with Cons.IH obtain pre h post where "p = pre @ lit @ h @ post" "length h = 8" "list_all isHashChar h"
        by blast
      then have "c # p = (c # pre) @ lit @ h @ post" by simp
      with \<open>length h = 8\<close> \<open>list_all isHashChar h\<close> show ?thesis by blast
    qed
  next
    assume "\<exists>pre h post. c # p = pre @ lit @ h @ post \<and> length h = 8 \<and> list_all isHashChar h"
    then obtain pre h post where e: "c # p = pre @ lit @ h @ post" and h: "length h = 8" "list_all isHashChar h"
      by blast
    show "Spec_hashedSomewhere lit (c # p)"
    proof (cases pre)
      case Nil
      with e h have "Spec_hashedAt lit (c # p)" unfolding Spec_hashedAt_iff by auto
      then show ?thesis by simp
    next
      case (Cons a pre')
      with e have "p = pre' @ lit @ h @ post" by simp
      with h Cons.IH have "Spec_hashedSomewhere lit p" by blast
      then show ?thesis by simp
    qed
  qed
qed

lemma hashed_scenario_patterns:
  "posixJoin [dir (path_parse ''assets/app-AB2C3D4E.js''), name (path_parse ''assets/app-AB2C3D4E.js'')]
     = ''assets/app-AB2C3D4E''"
  "RegExp_new (findVariablesRegexString ''[dir]/[name]-[hash]'') = Inr firstPatternItems"
  "RegExp_exec firstPatternItems ''assets/app-AB2C3D4E''
     = Some [(''hash'', ''AB2C3D4E''), (''name'', ''app''), (''dir'', ''assets'')]"
  "RegExp_new (findFilesWithSameVariablesRegexString ''[dir]/[name]-[hash]'' (Some ''app'') (Some ''assets''))
     = Inr (literalItems ''assets/app-'' @ hashGroup)"
  by code_simp+

lemma hashed_scenario_search:
  assumes "path e = ''assets/app-AB2C3D4E.js''"
  shows "findNameRelatedOutputFiles e mf (Some ''[dir]/[name]-[hash]'')
       = Inr (map flatten (filter (\<lambda>(p, v). Spec_hashedSomewhere ''assets/app-'' p) (outputsOf mf)))"
proof -
  have f: "filterE (\<lambda>(p, v). Inr (RegExp_test (literalItems ''assets/app-'' @ hashGroup) p))
             (outputsOf mf)
         = Inr (filter (\<lambda>(p, v). Spec_hashedSomewhere ''assets/app-'' p) (outputsOf mf))"
    by (rule filterE_total) (simp add: RegExp_test_hashed split: prod.splits)
  show ?thesis
    unfolding findNameRelatedOutputFiles_def assms Let_def
    by (simp add: hashed_scenario_patterns f del: RegExp_exec.simps)
qed

text \<open>
  Claim C5, as the code has it. With the naming template \<^verbatim>\<open>[dir]/[name]-[hash]\<close> and
  the entry output \<^verbatim>\<open>assets/app-AB2C3D4E.js\<close> the search returns, for every metadata
  mapping and in its order, the outputs whose path holds \<^verbatim>\<open>assets/app-\<close> followed by
  eight characters of \<^verbatim>\<open>A-Z\<close> and \<^verbatim>\<open>2-7\<close>. For the mapping of the entry output,
  \<^verbatim>\<open>assets/app-AB2C3D4E.css\<close> and \<^verbatim>\<open>assets/other-ZZ222222.js\<close> these are the entry
  output itself and the stylesheet.
\<close>

theorem hashed_related_files:
  assumes "path e = ''assets/app-AB2C3D4E.js''"
  shows "findNameRelatedOutputFiles e mf (Some ''[dir]/[name]-[hash]'')
           = Inr (map flatten (filter (\<lambda>(p, v). Spec_hashedSomewhere ''assets/app-'' p) (outputsOf mf)))
       \<and> (\<forall>p. Spec_hashedSomewhere ''assets/app-'' p \<longleftrightarrow>
              (\<exists>pre h post. p = pre @ ''assets/app-'' @ h @ post \<and> length h = 8
                 \<and> list_all isHashChar h))
       \<and> findNameRelatedOutputFiles e
           (Some [(''assets/app-AB2C3D4E.js'', a), (''assets/app-AB2C3D4E.css'', b),
                  (''assets/other-ZZ222222.js'', c)])
           (Some ''[dir]/[name]-[hash]'')
           = Inr [flatten (''assets/app-AB2C3D4E.js'', a), flatten (''assets/app-AB2C3D4E.css'', b)]"
proof -
  have s: "Spec_hashedSomewhere ''assets/app-'' ''assets/app-AB2C3D4E.js''"
    "Spec_hashedSomewhere ''assets/app-'' ''assets/app-AB2C3D4E.css''"
    "\<not> Spec_hashedSomewhere ''assets/app-'' ''assets/other-ZZ222222.js''"
    by code_simp+
  have "findNameRelatedOutputFiles e
           (Some [(''assets/app-AB2C3D4E.js'', a), (''assets/app-AB2C3D4E.css'', b),
                  (''assets/other-ZZ222222.js'', c)])
           (Some ''[dir]/[name]-[hash]'')
           = Inr [flatten (''assets/app-AB2C3D4E.js'', a), flatten (''assets/app-AB2C3D4E.css'', b)]"
    unfolding hashed_scenario_search[OF assms]
    by (simp add: outputsOf_def s del: Spec_hashedSomewhere.simps)
  moreover have "\<forall>p. Spec_hashedSomewhere ''assets/app-'' p \<longleftrightarrow>
              (\<exists>pre h post. p = pre @ ''assets/app-'' @ h @ post \<and> length h = 8
                 \<and> list_all isHashChar h)"
    by (rule allI) (rule Spec_hashedSomewhere_iff)
  ultimately show ?thesis
    using hashed_scenario_search[OF assms, of mf] by (intro conjI)
qed

text \<open>
  The theorem at a mapping that also holds a sibling with another hash, which is
  returned, and paths whose hash is in lower case, too short or missing, which are not.
\<close>

theorem hashed_related_files_witness:
  "findNameRelatedOutputFiles (flatten (''assets/app-AB2C3D4E.js'', entryOutput ''src/app.ts'' None))
     (Some hashedSiblings) (Some ''[dir]/[name]-[hash]'')
   = Inr [flatten (''assets/app-AB2C3D4E.js'', entryOutput ''src/app.ts'' None),
          plainFile ''assets/app-AB2C3D4E.css'', plainFile ''assets/app-ZZ234567.css'']"
proof -
  have p: "path (flatten (''assets/app-AB2C3D4E.js'', entryOutput ''src/app.ts'' None))
             = ''assets/app-AB2C3D4E.js''"
    by (simp add: flatten_def)
  have f: "map flatten (filter (\<lambda>(p, v). Spec_hashedSomewhere ''assets/app-'' p)
             (outputsOf (Some hashedSiblings)))
         = [flatten (''assets/app-AB2C3D4E.js'', entryOutput ''src/app.ts'' None),
            plainFile ''assets/app-AB2C3D4E.css'', plainFile ''assets/app-ZZ234567.css'']"
    by code_simp
  from hashed_related_files[OF p, of "Some hashedSiblings"] f show ?thesis by simp
qed

text \<open>
  Claim C5 as stated fails: with the entry output among the keys of the mapping, as it
  always is for the plugin, the result is not the stylesheet alone.
\<close>

theorem hashed_related_files_counterexample:
  "findNameRelatedOutputFiles (plainFile ''assets/app-AB2C3D4E.js'')
     (Some [(''assets/app-AB2C3D4E.js'', otherOutput), (''assets/app-AB2C3D4E.css'', otherOutput),
            (''assets/other-ZZ222222.js'', otherOutput)])
     (Some ''[dir]/[name]-[hash]'')
   \<noteq> Inr [plainFile ''assets/app-AB2C3D4E.css'']"
  by code_simp

end
